theory Spec2Isabelle
  imports Main "HOL-Library.Word"
begin

unbundle bit_operations_syntax

section \<open>Common types\<close>

text \<open>
  Byte slices (\<^verbatim>\<open>[]byte\<close>) are lists of 8-bit words. Sizes, offsets and lengths are
  natural numbers; descriptors are integers, because the code uses \<^verbatim>\<open>-1\<close> as a sentinel.
\<close>

type_synonym byte = "8 word"

section \<open>nametransform: encrypted names\<close>

text \<open>
  \<^verbatim>\<open>unix.NAME_MAX\<close> on Linux.
\<close>

definition NAME_MAX :: nat where
  "NAME_MAX = 255"

text \<open>
  The receiver of \<^verbatim>\<open>EncryptAndHashName\<close>. The struct and its methods
  \<^verbatim>\<open>EncryptName\<close> and \<^verbatim>\<open>HashLongName\<close> are declared outside the files at hand, so the
  two methods are parameters: any deterministic name cipher and any long-name hash.
\<close>

record NameTransform =
  longNames :: bool
  EncryptName :: "string \<Rightarrow> byte list \<Rightarrow> string"
  HashLongName :: "string \<Rightarrow> string"

definition EncryptAndHashName :: "NameTransform \<Rightarrow> string \<Rightarrow> byte list \<Rightarrow> string" where
  "EncryptAndHashName be name iv =
     (let cName = EncryptName be name iv in
      if longNames be \<and> length cName > NAME_MAX then HashLongName be cName
      else cName)"

text \<open>
  Two concrete receivers for evaluation: a name cipher that maps every name to
  \<open>n\<close> letters, and a stand-in that keeps the first eight characters. They differ only
  in the \<^verbatim>\<open>longNames\<close> flag.
\<close>

definition demo_names :: "bool \<Rightarrow> nat \<Rightarrow> NameTransform" where
  "demo_names flag n =
     \<lparr> longNames = flag,
       EncryptName = (\<lambda>name iv. replicate n (CHR ''A'')),
       HashLongName = (\<lambda>cName. ''gocryptfs.longname.'' @ take 8 cName) \<rparr>"

section \<open>The descriptor table of the process\<close>

text \<open>
  \<^verbatim>\<open>syscall.Errno\<close> values (Linux).
\<close>

type_synonym errno = nat

definition EINTR :: errno where "EINTR = 4"
definition EIO :: errno where "EIO = 5"
definition EBADF :: errno where "EBADF = 9"
definition EMFILE :: errno where "EMFILE = 24"
definition ENOSPC :: errno where "ENOSPC = 28"
definition ENOSYS :: errno where "ENOSYS = 38"
definition EOPNOTSUPP :: errno where "EOPNOTSUPP = 95"

text \<open>
  The kernel side of \<^verbatim>\<open>syscall.Dup\<close> and \<^verbatim>\<open>syscall.Close\<close>. The descriptor table is a
  list indexed by descriptor number; its length is the limit on open descriptors
  (\<^verbatim>\<open>RLIMIT_NOFILE\<close>); slot \<open>n\<close> holds the inode that descriptor \<open>n\<close> is open on, or
  \<open>None\<close> when \<open>n\<close> is unused. \<open>closes\<close> logs the argument of every \<^verbatim>\<open>close(2)\<close>
  issued, in order.
\<close>

record os_state =
  fdtab :: "nat option list"
  closes :: "int list"

definition fd_open :: "os_state \<Rightarrow> int \<Rightarrow> bool" where
  "fd_open os n = (0 \<le> n \<and> nat n < length (fdtab os) \<and> fdtab os ! nat n \<noteq> None)"

definition fd_inode :: "os_state \<Rightarrow> int \<Rightarrow> nat option" where
  "fd_inode os n = (if fd_open os n then fdtab os ! nat n else None)"

text \<open>The lowest unused descriptor number, as \<^verbatim>\<open>dup(2)\<close> picks it.\<close>

fun lowest_free :: "nat option list \<Rightarrow> nat option" where
  "lowest_free [] = None"
| "lowest_free (None # tab) = Some 0"
| "lowest_free (Some inode # tab) = map_option Suc (lowest_free tab)"

text \<open>
  \<^verbatim>\<open>syscall.Close(fd)\<close> returns \<open>EBADF\<close> for a descriptor that is not open.
\<close>

definition sys_Close :: "int \<Rightarrow> os_state \<Rightarrow> errno option \<times> os_state" where
  "sys_Close n os =
     (let os' = os\<lparr>closes := closes os @ [n]\<rparr> in
      if fd_open os n then (None, os'\<lparr>fdtab := (fdtab os)[nat n := None]\<rparr>)
      else (Some EBADF, os'))"

text \<open>
  \<^verbatim>\<open>syscall.Dup(fd)\<close> returns \<open>(nfd, err)\<close>: the lowest unused descriptor, open on the
  same inode; \<open>(-1, EBADF)\<close> when \<open>fd\<close> is not open, \<open>(-1, EMFILE)\<close> when the table is full.
\<close>

definition sys_Dup :: "int \<Rightarrow> os_state \<Rightarrow> (int \<times> errno option) \<times> os_state" where
  "sys_Dup n os =
     (if \<not> fd_open os n then ((- 1, Some EBADF), os)
      else case lowest_free (fdtab os) of
             None \<Rightarrow> ((- 1, Some EMFILE), os)
           | Some m \<Rightarrow> ((int m, None), os\<lparr>fdtab := (fdtab os)[m := fdtab os ! nat n]\<rparr>))"

section \<open>fusefrontend: the directory cache (dircache.go)\<close>

definition DirIVLen :: nat where
  "DirIVLen = 16"

definition dirCacheSize :: nat where
  "dirCacheSize = 3"

definition enableStats :: bool where
  "enableStats = False"

text \<open>
  A \<^verbatim>\<open>[]byte\<close> is a byte list; \<^verbatim>\<open>nil\<close> is the empty list (the code only takes its
  length). Warnings and debug messages are not modelled.
\<close>

record dirCacheEntryStruct =
  dirRelPath :: string
  fd :: int
  iv :: "byte list"

definition dirCacheEntryStruct_Clear ::
  "dirCacheEntryStruct \<Rightarrow> os_state \<Rightarrow> dirCacheEntryStruct \<times> os_state" where
  "dirCacheEntryStruct_Clear e os =
     (let os' = (if fd e > 0 then snd (sys_Close (fd e) os) else os)
      in (e\<lparr>fd := - 1, dirRelPath := [], iv := []\<rparr>, os'))"

record dirCacheStruct =
  entries :: "dirCacheEntryStruct list"
  nextIndex :: nat
  expireThreadRunning :: bool
  lookups :: nat
  hits :: nat

text \<open>The loop of \<^verbatim>\<open>dirCacheStruct.Clear\<close> over the slots, in index order.\<close>

fun Clear_entries ::
  "dirCacheEntryStruct list \<Rightarrow> os_state \<Rightarrow> dirCacheEntryStruct list \<times> os_state" where
  "Clear_entries [] os = ([], os)"
| "Clear_entries (e # es) os =
     (case dirCacheEntryStruct_Clear e os of
        (e', os1) \<Rightarrow> (case Clear_entries es os1 of (es', os2) \<Rightarrow> (e' # es', os2)))"

definition dirCacheStruct_Clear ::
  "dirCacheStruct \<Rightarrow> os_state \<Rightarrow> dirCacheStruct \<times> os_state" where
  "dirCacheStruct_Clear d os =
     (case Clear_entries (entries d) os of (es', os') \<Rightarrow> (d\<lparr>entries := es'\<rparr>, os'))"

text \<open>
  \<^verbatim>\<open>log.Panicf\<close> aborts the process; the two sanity checks carry the values they print.
  An index outside the array is Go's run-time panic.
\<close>

datatype panic =
  StoreSanityCheckFailed int nat
  | LookupSanityCheckFailed int nat
  | IndexOutOfRange

definition Store ::
  "dirCacheStruct \<Rightarrow> string \<Rightarrow> int \<Rightarrow> byte list \<Rightarrow> os_state
     \<Rightarrow> panic + (dirCacheStruct \<times> os_state)" where
  "Store d path fd0 iv0 os =
     (if fd0 \<le> 0 \<or> length iv0 \<noteq> DirIVLen
      then Inl (StoreSanityCheckFailed fd0 (length iv0))
      else if length (entries d) \<le> nextIndex d then Inl IndexOutOfRange
      else
        let i = nextIndex d;
            d1 = d\<lparr>nextIndex := (nextIndex d + 1) mod dirCacheSize\<rparr>;
            (e1, os1) = dirCacheEntryStruct_Clear (entries d1 ! i) os;
            d2 = d1\<lparr>entries := (entries d1)[i := e1]\<rparr>;
            ((fd2, err), os2) = sys_Dup fd0 os1
        in if err \<noteq> None then Inr (d2, os2)
           else Inr (d2\<lparr>entries :=
                          (entries d2)[i := e1\<lparr>fd := fd2, dirRelPath := path, iv := iv0\<rparr>],
                        expireThreadRunning := True\<rparr>, os2))"

text \<open>
  The loop of \<^verbatim>\<open>Lookup\<close>. \<open>Inl\<close> is the early \<^verbatim>\<open>return -1, nil\<close> after a failed
  \<^verbatim>\<open>Dup\<close>; \<open>Inr\<close> carries the named results \<open>fd\<close> and \<open>iv\<close> as the loop leaves them
  (\<open>0\<close> and \<^verbatim>\<open>nil\<close> when no slot matched).
\<close>

fun Lookup_loop ::
  "dirCacheEntryStruct list \<Rightarrow> string \<Rightarrow> os_state
     \<Rightarrow> os_state + (int \<times> byte list \<times> os_state)" where
  "Lookup_loop [] path os = Inr (0, [], os)"
| "Lookup_loop (e # es) path os =
     (if fd e \<le> 0 then Lookup_loop es path os
      else if path \<noteq> dirRelPath e then Lookup_loop es path os
      else case sys_Dup (fd e) os of
             ((fd1, err), os1) \<Rightarrow>
               if err \<noteq> None then Inl os1 else Inr (fd1, iv e, os1))"

definition Lookup ::
  "dirCacheStruct \<Rightarrow> string \<Rightarrow> os_state
     \<Rightarrow> panic + ((int \<times> byte list) \<times> dirCacheStruct \<times> os_state)" where
  "Lookup d path os =
     (let d1 = (if enableStats then d\<lparr>lookups := lookups d + 1\<rparr> else d) in
      case Lookup_loop (entries d1) path os of
        Inl os1 \<Rightarrow> Inr ((- 1, []), d1, os1)
      | Inr (fd1, iv1, os1) \<Rightarrow>
          if fd1 = 0 then Inr ((- 1, []), d1, os1)
          else
            let d2 = (if enableStats then d1\<lparr>hits := hits d1 + 1\<rparr> else d1) in
            if fd1 \<le> 0 \<or> length iv1 \<noteq> DirIVLen
            then Inl (LookupSanityCheckFailed fd1 (length iv1))
            else Inr ((fd1, iv1), d2, os1))"

text \<open>The zero value of \<^verbatim>\<open>dirCacheStruct\<close>, as Go allocates it.\<close>

definition dirCacheEntry_zero :: dirCacheEntryStruct where
  "dirCacheEntry_zero = \<lparr> dirRelPath = [], fd = 0, iv = [] \<rparr>"

definition dirCache_zero :: dirCacheStruct where
  "dirCache_zero =
     \<lparr> entries = [dirCacheEntry_zero, dirCacheEntry_zero, dirCacheEntry_zero],
       nextIndex = 0, expireThreadRunning = False, lookups = 0, hits = 0 \<rparr>"

text \<open>The state \<^verbatim>\<open>dirCacheEntryStruct.Clear\<close> leaves a slot in.\<close>

definition dirCacheEntry_empty :: dirCacheEntryStruct where
  "dirCacheEntry_empty = \<lparr> dirRelPath = [], fd = - 1, iv = [] \<rparr>"

text \<open>
  Package \<^verbatim>\<open>ensurefds012\<close> (named in the comments of \<^verbatim>\<open>Store\<close> and \<^verbatim>\<open>Clear\<close>) keeps
  descriptors 0, 1 and 2 open for the life of the process.
\<close>

definition fds012_open :: "os_state \<Rightarrow> bool" where
  "fds012_open os = (fd_open os 0 \<and> fd_open os 1 \<and> fd_open os 2)"

text \<open>The number of descriptors still unused below the limit.\<close>

definition free_fds :: "os_state \<Rightarrow> nat" where
  "free_fds os = length (filter (\<lambda>x. x = None) (fdtab os))"

text \<open>
  Sequences of cache operations. \<^verbatim>\<open>Clear\<close> is an operation of its own because the expire
  thread calls it between any two others (all three hold the mutex for their whole body).
  A run stops at the first panic; otherwise it collects what the \<^verbatim>\<open>Lookup\<close> calls
  returned.
\<close>

datatype cache_op =
  OpStore string int "byte list"
  | OpLookup string
  | OpClear

fun cache_step ::
  "cache_op \<Rightarrow> dirCacheStruct \<times> os_state
     \<Rightarrow> panic + ((int \<times> byte list) list \<times> dirCacheStruct \<times> os_state)" where
  "cache_step (OpStore path fd0 iv0) (d, os) =
     (case Store d path fd0 iv0 os of
        Inl x \<Rightarrow> Inl x
      | Inr (d', os') \<Rightarrow> Inr ([], d', os'))"
| "cache_step (OpLookup path) (d, os) =
     (case Lookup d path os of
        Inl x \<Rightarrow> Inl x
      | Inr (r, d', os') \<Rightarrow> Inr ([r], d', os'))"
| "cache_step OpClear (d, os) =
     (case dirCacheStruct_Clear d os of (d', os') \<Rightarrow> Inr ([], d', os'))"

fun cache_run ::
  "cache_op list \<Rightarrow> dirCacheStruct \<times> os_state
     \<Rightarrow> panic + ((int \<times> byte list) list \<times> dirCacheStruct \<times> os_state)" where
  "cache_run [] (d, os) = Inr ([], d, os)"
| "cache_run (c # cs) (d, os) =
     (case cache_step c (d, os) of
        Inl x \<Rightarrow> Inl x
      | Inr (rs, d', os') \<Rightarrow>
          (case cache_run cs (d', os') of
             Inl x \<Rightarrow> Inl x
           | Inr (rs', d'', os'') \<Rightarrow> Inr (rs @ rs', d'', os'')))"

text \<open>
  The shape the cache keeps: three slots, the round-robin index inside the array, and in
  every slot either no descriptor (\<open>fd \<le> 0\<close>) or a descriptor above 2 with a 16-byte IV.
\<close>

definition cache_inv :: "dirCacheStruct \<Rightarrow> bool" where
  "cache_inv d =
     (length (entries d) = dirCacheSize \<and> nextIndex d < dirCacheSize
      \<and> (\<forall>e \<in> set (entries d). fd e \<le> 0 \<or> (3 \<le> fd e \<and> length (iv e) = DirIVLen)))"

text \<open>
  The descriptors in the slots are the cache's own: every slot that has a descriptor has
  an open one, and no two slots have the same. The zero value has no descriptor at
  all, and \<^verbatim>\<open>Store\<close> only ever puts a descriptor into a slot that \<^verbatim>\<open>Dup\<close> has just
  returned, so this holds as long as nothing but the cache closes these descriptors.
\<close>

definition cache_owns :: "dirCacheStruct \<Rightarrow> os_state \<Rightarrow> bool" where
  "cache_owns d os =
     ((\<forall>e \<in> set (entries d). 0 < fd e \<longrightarrow> fd_open os (fd e))
      \<and> distinct (filter (\<lambda>n. 0 < n) (map fd (entries d))))"

text \<open>
  The calls that may come between a \<^verbatim>\<open>Store\<close> and a later \<^verbatim>\<open>Lookup\<close> of the same path
  without clearing the cache: \<^verbatim>\<open>Lookup\<close> calls, and \<^verbatim>\<open>Store\<close> calls whose arguments pass
  the sanity check.
\<close>

fun intervening :: "cache_op \<Rightarrow> bool" where
  "intervening (OpStore path fd0 iv0) = (0 < fd0 \<and> length iv0 = DirIVLen)"
| "intervening (OpLookup path) = True"
| "intervening OpClear = False"

fun is_Store :: "cache_op \<Rightarrow> bool" where
  "is_Store (OpStore path fd0 iv0) = True"
| "is_Store (OpLookup path) = False"
| "is_Store OpClear = False"

text \<open>Descriptor tables and IVs for evaluation.\<close>

definition demo_os :: "nat option list \<Rightarrow> os_state" where
  "demo_os tab = \<lparr> fdtab = tab, closes = [] \<rparr>"

definition demo_iv :: "byte \<Rightarrow> byte list" where
  "demo_iv b = [b, b, b, b, b, b, b, b, b, b, b, b, b, b, b, b]"

text \<open>
  What the \<^verbatim>\<open>Lookup\<close> calls of a run returned, each with the inode its descriptor is
  open on at the end of the run; \<open>None\<close> when the run panicked.
\<close>

definition returned ::
  "panic + ((int \<times> byte list) list \<times> dirCacheStruct \<times> os_state)
     \<Rightarrow> (int \<times> byte list \<times> nat option) list option" where
  "returned r =
     (case r of
        Inl x \<Rightarrow> None
      | Inr (rs, d, os) \<Rightarrow> Some (map (\<lambda>(n, v). (n, v, fd_inode os n)) rs))"

text \<open>A cache that holds one path in slot 0, with the round-robin index at slot 1.\<close>

definition demo_cache :: dirCacheStruct where
  "demo_cache =
     \<lparr> entries = [\<lparr> dirRelPath = ''x'', fd = 4, iv = demo_iv 9 \<rparr>,
                  dirCacheEntry_zero, dirCacheEntry_zero],
       nextIndex = 1, expireThreadRunning = True, lookups = 0, hits = 0 \<rparr>"

text \<open>
  Two descriptor tables for evaluation, both with descriptor 3 open on inode 7 and
  descriptor 4 (the one in \<open>demo_cache\<close>) on inode 9: one with five unused descriptors,
  one that is full. And three calls to come between a \<^verbatim>\<open>Store\<close> and a \<^verbatim>\<open>Lookup\<close>.
\<close>

definition demo_room :: os_state where
  "demo_room = demo_os [Some 0, Some 0, Some 0, Some 7, Some 9, None, None, None, None, None]"

definition demo_full :: os_state where
  "demo_full = demo_os [Some 0, Some 0, Some 0, Some 7, Some 9]"

definition demo_between :: "cache_op list" where
  "demo_between = [OpLookup ''x'', OpStore ''c'' 3 (demo_iv 2), OpLookup ''b'']"

section \<open>nametransform: the directory IV file\<close>

text \<open>
  Open flags and mode bits as the Go constants have them on Linux (amd64). The mode
  \<^verbatim>\<open>0400\<close> of the source is octal.
\<close>

definition O_RDONLY :: nat where "O_RDONLY = 0"
definition O_WRONLY :: nat where "O_WRONLY = 1"
definition O_CREAT :: nat where "O_CREAT = 64"
definition O_EXCL :: nat where "O_EXCL = 128"
definition O_NOFOLLOW :: nat where "O_NOFOLLOW = 131072"

definition mode_0400 :: nat where
  "mode_0400 = 4 * 8 * 8"

definition DirIVFilename :: string where
  "DirIVFilename = ''gocryptfs.diriv''"

text \<open>
  Go \<^verbatim>\<open>error\<close> values that occur here: a \<^verbatim>\<open>syscall.Errno\<close>, \<^verbatim>\<open>io.EOF\<close>, the three
  \<^verbatim>\<open>fmt.Errorf\<close> values of \<^verbatim>\<open>fdReadDirIV\<close>, each with the values it formats, the
  failed authentication of a block, with the number of the block, and the error with
  which \<^verbatim>\<open>os.File.ReadAt\<close> refuses a negative offset.
\<close>

datatype error =
  Errno errno
  | EOF
  | ReadFailed error
  | WantedGot nat nat
  | AllZeroDirIV
  | AuthFailed nat
  | NegativeOffset

text \<open>The calls that leave the package, with their arguments, as a trace records them.\<close>

datatype syscall =
  Sys_Openat int string nat nat
  | Sys_Read int nat
  | Sys_Write int "byte list"
  | Sys_Close int
  | Sys_Unlinkat int string nat

text \<open>
  What the world outside answers. \<^verbatim>\<open>syscallcompat.Openat\<close> and \<^verbatim>\<open>syscallcompat.Unlinkat\<close>
  are declared outside the files at hand; they and the methods of \<^verbatim>\<open>os.File\<close> are
  parameters that give each call its result: \<open>k_openat\<close> an errno or the new
  descriptor, \<open>k_read\<close> the bytes put into the buffer and the error,
  \<open>k_write\<close> the number of bytes written and the error. \<open>k_RandBytes\<close> is
  \<^verbatim>\<open>cryptocore.RandBytes\<close>.
\<close>

record diriv_kernel =
  k_openat :: "int \<Rightarrow> string \<Rightarrow> nat \<Rightarrow> nat \<Rightarrow> errno + int"
  k_read :: "int \<Rightarrow> nat \<Rightarrow> byte list \<times> error option"
  k_write :: "int \<Rightarrow> byte list \<Rightarrow> nat \<times> error option"
  k_close :: "int \<Rightarrow> error option"
  k_unlinkat :: "int \<Rightarrow> string \<Rightarrow> nat \<Rightarrow> error option"
  k_RandBytes :: "nat \<Rightarrow> byte list"

definition allZeroDirIV :: "byte list" where
  "allZeroDirIV = replicate DirIVLen 0"

text \<open>
  \<^verbatim>\<open>fdReadDirIV\<close>: one \<^verbatim>\<open>Read\<close> into a buffer of \<open>DirIVLen + 1\<close> bytes. \<^verbatim>\<open>Read\<close> never
  returns more than the buffer holds, hence the \<open>take\<close>. Returns the IV and the error,
  and the calls made.
\<close>

definition fdReadDirIV ::
  "diriv_kernel \<Rightarrow> int \<Rightarrow> (byte list \<times> error option) \<times> syscall list" where
  "fdReadDirIV k fd0 =
     (let (got, err) = k_read k fd0 (DirIVLen + 1);
          calls = [Sys_Read fd0 (DirIVLen + 1)]
      in case (if err = Some EOF then None else err) of
           Some e \<Rightarrow> (([], Some (ReadFailed e)), calls)
         | None \<Rightarrow>
             let iv1 = take (DirIVLen + 1) got in
             if length iv1 \<noteq> DirIVLen then (([], Some (WantedGot DirIVLen (length iv1))), calls)
             else if iv1 = allZeroDirIV then (([], Some AllZeroDirIV), calls)
             else ((iv1, None), calls))"

text \<open>\<^verbatim>\<open>ReadDirIVAt\<close>; the deferred \<^verbatim>\<open>fd.Close()\<close> runs last and its result is dropped.\<close>

definition ReadDirIVAt ::
  "diriv_kernel \<Rightarrow> int \<Rightarrow> (byte list \<times> error option) \<times> syscall list" where
  "ReadDirIVAt k dirfd =
     (let flags = O_RDONLY OR O_NOFOLLOW;
          opened = [Sys_Openat dirfd DirIVFilename flags 0]
      in case k_openat k dirfd DirIVFilename flags 0 of
           Inl e \<Rightarrow> (([], Some (Errno e)), opened)
         | Inr fdRaw \<Rightarrow>
             (case fdReadDirIV k fdRaw of
                (r, calls) \<Rightarrow> (r, opened @ calls @ [Sys_Close fdRaw])))"

text \<open>
  \<^verbatim>\<open>WriteDirIVAt\<close>. Beside the error and the calls made, the model follows the file
  \<^verbatim>\<open>gocryptfs.diriv\<close> of the directory: \<open>None\<close> when there is none, else its content. A
  successful \<^verbatim>\<open>Openat\<close> with \<^verbatim>\<open>O_CREAT|O_EXCL\<close> has created it empty, \<^verbatim>\<open>Write\<close> leaves the
  bytes it wrote, a successful \<^verbatim>\<open>Unlinkat\<close> removes it. The results of the \<^verbatim>\<open>Close\<close> after
  a failed write and of both \<^verbatim>\<open>Unlinkat\<close> calls are dropped by the code.
\<close>

definition WriteDirIVAt ::
  "diriv_kernel \<Rightarrow> int \<Rightarrow> byte list option
     \<Rightarrow> error option \<times> syscall list \<times> byte list option" where
  "WriteDirIVAt k dirfd before =
     (let iv0 = k_RandBytes k DirIVLen;
          flags = O_WRONLY OR O_CREAT OR O_EXCL;
          opened = [Sys_Openat dirfd DirIVFilename flags mode_0400]
      in case k_openat k dirfd DirIVFilename flags mode_0400 of
           Inl e \<Rightarrow> (Some (Errno e), opened, before)
         | Inr fd0 \<Rightarrow>
             let (n, werr) = k_write k fd0 iv0;
                 written = Some (take n iv0);
                 unlinked = (if k_unlinkat k dirfd DirIVFilename 0 = None then None else written)
             in if werr \<noteq> None
                then (werr,
                      opened @ [Sys_Write fd0 iv0, Sys_Close fd0, Sys_Unlinkat dirfd DirIVFilename 0],
                      unlinked)
                else
                  let cerr = k_close k fd0 in
                  if cerr \<noteq> None
                  then (cerr,
                        opened @ [Sys_Write fd0 iv0, Sys_Close fd0,
                                  Sys_Unlinkat dirfd DirIVFilename 0],
                        unlinked)
                  else (None, opened @ [Sys_Write fd0 iv0, Sys_Close fd0], written))"

text \<open>A kernel for evaluation, built from the answers to the five calls.\<close>

definition demo_kernel ::
  "errno + int \<Rightarrow> byte list \<times> error option \<Rightarrow> nat \<times> error option \<Rightarrow> error option
     \<Rightarrow> error option \<Rightarrow> diriv_kernel" where
  "demo_kernel o_res r_res w_res c_res u_res =
     \<lparr> k_openat = (\<lambda>dirfd path flags mode. o_res),
       k_read = (\<lambda>fd0 n. r_res),
       k_write = (\<lambda>fd0 buf. w_res),
       k_close = (\<lambda>fd0. c_res),
       k_unlinkat = (\<lambda>dirfd path flags. u_res),
       k_RandBytes = (\<lambda>n. take n [1, 2, 3, 4, 5, 6, 7, 8, 9, 10, 11, 12, 13, 14, 15, 16]) \<rparr>"

section \<open>syscallcompat: EnospcPrealloc\<close>

definition FALLOC_FL_KEEP_SIZE :: nat where
  "FALLOC_FL_KEEP_SIZE = 1"

text \<open>
  The state of the process that \<^verbatim>\<open>EnospcPrealloc\<close> touches: every \<^verbatim>\<open>fallocate\<close> call issued
  so far (descriptor, mode, offset, length), whether the \<^verbatim>\<open>sync.Once\<close> named
  \<^verbatim>\<open>preallocWarn\<close> has fired, and the number of warnings written.
\<close>

record prealloc_state =
  fallocate_calls :: "(int \<times> nat \<times> int \<times> int) list"
  preallocWarn_done :: bool
  warnings :: nat

definition preallocWarn_Do :: "prealloc_state \<Rightarrow> prealloc_state" where
  "preallocWarn_Do st =
     (if preallocWarn_done st then st
      else st\<lparr>preallocWarn_done := True, warnings := warnings st + 1\<rparr>)"

text \<open>
  The kernel is a parameter: \<open>sys n c\<close> is what \<^verbatim>\<open>syscall.Fallocate\<close> returns for the
  call \<open>c\<close> when \<open>n\<close> calls were issued before it (\<open>None\<close> is \<^verbatim>\<open>nil\<close>). The loop has no
  bound, so the function is partial: \<open>None\<close> means that it never returns.
\<close>

partial_function (option) EnospcPrealloc ::
  "(nat \<Rightarrow> int \<times> nat \<times> int \<times> int \<Rightarrow> errno option) \<Rightarrow> int \<Rightarrow> int \<Rightarrow> int
     \<Rightarrow> prealloc_state \<Rightarrow> (errno option \<times> prealloc_state) option" where
  "EnospcPrealloc sys fd0 off len st =
     (let c = (fd0, FALLOC_FL_KEEP_SIZE, off, len);
          err = sys (length (fallocate_calls st)) c;
          st1 = st\<lparr>fallocate_calls := fallocate_calls st @ [c]\<rparr>
      in if err = Some EINTR then EnospcPrealloc sys fd0 off len st1
         else if err = Some EOPNOTSUPP then Some (None, preallocWarn_Do st1)
         else Some (err, st1))"

text \<open>
  \<^verbatim>\<open>preallocWarn\<close> is the only writer of that warning, so the warnings written are one
  when it has fired and none before.
\<close>

definition once_inv :: "prealloc_state \<Rightarrow> bool" where
  "once_inv st = (warnings st = (if preallocWarn_done st then 1 else 0))"

definition prealloc_init :: prealloc_state where
  "prealloc_init = \<lparr> fallocate_calls = [], preallocWarn_done = False, warnings = 0 \<rparr>"

text \<open>A kernel for evaluation: it answers the calls in order from a list, then with success.\<close>

definition demo_fallocate :: "errno option list \<Rightarrow> nat \<Rightarrow> int \<times> nat \<times> int \<times> int \<Rightarrow> errno option" where
  "demo_fallocate answers n c = (if n < length answers then answers ! n else None)"

section \<open>cryptfs: what file.go calls\<close>

text \<open>
  Package \<^verbatim>\<open>cryptfs\<close> is not among the files at hand. \<^verbatim>\<open>file.go\<close> uses its methods
  only through their results, so they are parameters here: a value of \<open>cryptfs\<close>
  fixes what each method returns. \<open>intraBlock\<close> is the element type of what
  \<^verbatim>\<open>SplitRange\<close> returns: its three fields, and the results of its three methods
  \<^verbatim>\<open>IsPartial()\<close>, \<^verbatim>\<open>PlaintextRange()\<close> and \<^verbatim>\<open>CiphertextRange()\<close>.

  A \<^verbatim>\<open>uint64\<close> is a natural number, a Go \<^verbatim>\<open>int\<close> an integer. In \<^verbatim>\<open>doRead\<close> and \<^verbatim>\<open>Read\<close>
  the conversions between them are written out, with what the code does when a value
  does not fit. In \<^verbatim>\<open>doWrite\<close> and \<^verbatim>\<open>Truncate\<close> the sizes and offsets are natural numbers
  throughout, which agrees with the code as long as no value reaches \<open>2^63\<close>; the one
  subtraction that could wrap around, in \<^verbatim>\<open>Truncate\<close>, is written out.
\<close>

text \<open>
  Go's \<^verbatim>\<open>int64\<close>, and its \<^verbatim>\<open>int\<close> on a 64-bit platform, hold 64 bits in two's complement.
  \<^verbatim>\<open>int64(x)\<close> and \<^verbatim>\<open>int(x)\<close> of a \<^verbatim>\<open>uint64\<close> keep the bits, so a value from \<open>2^63\<close> on
  turns negative; \<^verbatim>\<open>uint64(i)\<close> is the way back; the sum of two \<^verbatim>\<open>int\<close> wraps around.
\<close>

definition int64 :: "nat \<Rightarrow> int" where
  "int64 n =
     (if n mod 2 ^ 64 < 2 ^ 63 then int (n mod 2 ^ 64) else int (n mod 2 ^ 64) - 2 ^ 64)"

definition uint64 :: "int \<Rightarrow> nat" where
  "uint64 i = nat (i mod 2 ^ 64)"

definition add_int :: "int \<Rightarrow> int \<Rightarrow> int" where
  "add_int a b = (a + b + 2 ^ 63) mod 2 ^ 64 - 2 ^ 63"

record intraBlock =
  BlockNo :: nat
  Skip :: nat
  Length :: nat
  IsPartial :: bool
  PlaintextRange :: "nat \<times> nat"
  BlockCiphertextRange :: "nat \<times> nat"

record cryptfs =
  PlainBS :: nat
  CiphertextRange :: "nat \<Rightarrow> nat \<Rightarrow> nat \<times> nat \<times> int"
  DecryptBlocks :: "byte list \<Rightarrow> nat \<Rightarrow> byte list \<times> error option"
  EncryptBlock :: "byte list \<Rightarrow> nat \<Rightarrow> byte list"
  PlainSize :: "nat \<Rightarrow> nat"
  BlockNoPlainOff :: "nat \<Rightarrow> nat"
  SplitRange :: "nat \<Rightarrow> nat \<Rightarrow> intraBlock list"
  MergeBlocks :: "byte list \<Rightarrow> byte list \<Rightarrow> nat \<Rightarrow> byte list"

text \<open>
  Modelled from the spec: the constant behind \<^verbatim>\<open>CipherBS()\<close>, which is declared outside
  the files at hand. The spec gives a ciphertext block as a 12-byte nonce, the
  ciphertext and a 16-byte tag: \<open>CipherBS = 12 + PlainBS + 16\<close>.
\<close>

definition NONCE_LEN :: nat where "NONCE_LEN = 12"
definition AUTH_TAG_LEN :: nat where "AUTH_TAG_LEN = 16"

definition CipherBS :: "'a cryptfs_scheme \<Rightarrow> nat" where
  "CipherBS be = NONCE_LEN + PlainBS be + AUTH_TAG_LEN"

section \<open>pathfs_frontend: file.go\<close>

text \<open>
  \<^verbatim>\<open>fuse.Status\<close> is an integer: \<open>0\<close> for \<^verbatim>\<open>fuse.OK\<close>, else an errno. \<^verbatim>\<open>fuse.ToStatus\<close> (of the
  go-fuse library) maps \<^verbatim>\<open>nil\<close> to \<^verbatim>\<open>OK\<close>, an errno to itself and any other error to
  \<open>ENOSYS\<close>.
\<close>

type_synonym status = nat

definition OK :: status where "OK = 0"

fun ToStatus :: "error option \<Rightarrow> status" where
  "ToStatus None = OK"
| "ToStatus (Some (Errno e)) = e"
| "ToStatus (Some other) = ENOSYS"

text \<open>
  What is behind the \<^verbatim>\<open>*os.File\<close> of an open file: the bytes of the backing file, every
  call issued on the descriptor so far, and a fault plan: \<open>faults n = Some e\<close> makes the
  call issued after \<open>n\<close> earlier ones fail with errno \<open>e\<close>. A call that fails changes
  nothing. The mutex \<^verbatim>\<open>lock\<close> is not modelled: calls are run one after the other.
\<close>

datatype fevent =
  EvFstat
  | EvReadAt int nat
  | EvWriteAt nat "byte list"
  | EvFtruncate nat

record backing =
  content :: "byte list"
  trace :: "fevent list"
  faults :: "nat \<Rightarrow> errno option"

text \<open>
  The struct \<^verbatim>\<open>file\<close>; the name is taken in Isabelle, so the type takes the name that
  \<^verbatim>\<open>String()\<close> prints. Its fields \<^verbatim>\<open>fd\<close> and \<^verbatim>\<open>ino\<close> are \<open>file_fd\<close> and \<open>file_ino\<close>.
\<close>

record cryptFile =
  file_fd :: backing
  writeOnly :: bool
  cfs :: cryptfs
  file_ino :: nat

definition fault_now :: "backing \<Rightarrow> errno option" where
  "fault_now b = faults b (length (trace b))"

text \<open>
  \<^verbatim>\<open>fd.ReadAt(buf, off)\<close> with a buffer of \<open>n\<close> bytes and the \<^verbatim>\<open>int64\<close> offset \<open>off\<close>. A
  negative offset is refused with an error that is not an errno. Otherwise: the bytes
  of the file from \<open>off\<close>, at most \<open>n\<close>; \<^verbatim>\<open>io.EOF\<close> when fewer than \<open>n\<close> were there.
\<close>

definition ReadAt :: "backing \<Rightarrow> nat \<Rightarrow> int \<Rightarrow> (byte list \<times> error option) \<times> backing" where
  "ReadAt b n off =
     (let b' = b\<lparr>trace := trace b @ [EvReadAt off n]\<rparr> in
      if off < 0 then (([], Some NegativeOffset), b')
      else
        case fault_now b of
          Some e \<Rightarrow> (([], Some (Errno e)), b')
        | None \<Rightarrow>
            let got = take n (drop (nat off) (content b))
            in ((got, if length got < n then Some EOF else None), b'))"

text \<open>
  \<^verbatim>\<open>fd.WriteAt(data, off)\<close>: a write past the end fills the gap with zero bytes.
\<close>

definition WriteAt :: "backing \<Rightarrow> byte list \<Rightarrow> nat \<Rightarrow> error option \<times> backing" where
  "WriteAt b buf off =
     (let b' = b\<lparr>trace := trace b @ [EvWriteAt off buf]\<rparr> in
      case fault_now b of
        Some e \<Rightarrow> (Some (Errno e), b')
      | None \<Rightarrow>
          (None, b'\<lparr>content :=
                      take off (content b) @ replicate (off - length (content b)) 0 @ buf
                      @ drop (off + length buf) (content b)\<rparr>))"

text \<open>\<^verbatim>\<open>syscall.Ftruncate(fd, n)\<close>: cuts the file at \<open>n\<close> or extends it with zero bytes.\<close>

definition Ftruncate :: "backing \<Rightarrow> nat \<Rightarrow> error option \<times> backing" where
  "Ftruncate b n =
     (let b' = b\<lparr>trace := trace b @ [EvFtruncate n]\<rparr> in
      case fault_now b of
        Some e \<Rightarrow> (Some (Errno e), b')
      | None \<Rightarrow>
          (None, b'\<lparr>content := take n (content b) @ replicate (n - length (content b)) 0\<rparr>))"

text \<open>\<^verbatim>\<open>fd.Stat()\<close>, of which the code reads the size only.\<close>

definition Fstat :: "backing \<Rightarrow> (nat \<times> error option) \<times> backing" where
  "Fstat b =
     (let b' = b\<lparr>trace := trace b @ [EvFstat]\<rparr> in
      case fault_now b of
        Some e \<Rightarrow> ((0, Some (Errno e)), b')
      | None \<Rightarrow> ((length (content b), None), b'))"

text \<open>
  Go's run-time panics in \<^verbatim>\<open>doRead\<close>: \<^verbatim>\<open>make\<close> with a negative length, and a slice
  expression \<^verbatim>\<open>s[low:high]\<close> that does not have \<open>0 \<le> low \<le> high \<le> cap(s)\<close>. A panic ends
  the call and every call around it (nothing in \<^verbatim>\<open>file.go\<close> recovers). An allocation
  of a length that is not negative is taken to succeed.
\<close>

datatype go_panic =
  MakesliceLenOutOfRange
  | SliceBoundsOutOfRange

text \<open>
  \<^verbatim>\<open>doRead\<close>. A \<^verbatim>\<open>nil\<close> slice is the empty list, and \<^verbatim>\<open>s[low:high]\<close> is
  \<open>drop low (take high s)\<close>. The three ways of the crop are kept as the code has them.
\<close>

definition doRead ::
  "cryptFile \<Rightarrow> nat \<Rightarrow> nat \<Rightarrow> go_panic + ((byte list \<times> status) \<times> cryptFile)" where
  "doRead f off len =
     (let (alignedOffset, alignedLength, skip) = CiphertextRange (cfs f) off len in
      if int64 alignedLength < 0 then Inl MakesliceLenOutOfRange
      else
        let ((ciphertext, err), b1) =
               ReadAt (file_fd f) (nat (int64 alignedLength)) (int64 alignedOffset);
            f1 = f\<lparr>file_fd := b1\<rparr>
        in if err \<noteq> None \<and> err \<noteq> Some EOF then Inr (([], ToStatus err), f1)
           else
             let blockNo = alignedOffset div CipherBS (cfs f);
                 (plaintext, derr) = DecryptBlocks (cfs f) ciphertext blockNo
             in if derr \<noteq> None then Inr (([], EIO), f1)
                else
                  let lenHave = int (length plaintext);
                      lenWant = add_int skip (int64 len)
                  in if lenHave > lenWant
                     then (if 0 \<le> skip \<and> skip \<le> lenWant
                           then Inr ((drop (nat skip) (take (nat lenWant) plaintext), OK), f1)
                           else Inl SliceBoundsOutOfRange)
                     else if lenHave > skip
                     then (if 0 \<le> skip
                           then Inr ((drop (nat skip) (take (nat lenHave) plaintext), OK), f1)
                           else Inl SliceBoundsOutOfRange)
                     else Inr (([], OK), f1))"

text \<open>
  \<^verbatim>\<open>Read\<close>, the FUSE call, for a buffer of \<open>n\<close> bytes and the \<^verbatim>\<open>int64\<close> offset \<open>off\<close>. A
  \<^verbatim>\<open>nil\<close> result is \<open>None\<close>.
\<close>

definition Read ::
  "cryptFile \<Rightarrow> nat \<Rightarrow> int \<Rightarrow> go_panic + ((byte list option \<times> status) \<times> cryptFile)" where
  "Read f n off =
     (if writeOnly f then Inr ((None, EBADF), f)
      else case doRead f (uint64 off) n of
             Inl p \<Rightarrow> Inl p
           | Inr ((out, st), f1) \<Rightarrow>
               if st \<noteq> OK then Inr ((None, st), f1) else Inr ((Some out, st), f1))"

text \<open>
  The loop of \<^verbatim>\<open>doWrite\<close> over the blocks; \<open>buf\<close> is what \<^verbatim>\<open>dataBuf\<close> still holds,
  \<open>written\<close> the \<^verbatim>\<open>uint32\<close> counter.
\<close>

fun doWrite_loop ::
  "cryptFile \<Rightarrow> intraBlock list \<Rightarrow> byte list \<Rightarrow> nat
     \<Rightarrow> go_panic + ((nat \<times> status) \<times> cryptFile)" where
  "doWrite_loop f [] buf written = Inr ((written, OK), f)"
| "doWrite_loop f (b # bs) buf written =
     (let blockData = take (Length b) buf;
          rest = drop (Length b) buf
      in case (if IsPartial b
               then case doRead f (fst (PlaintextRange b)) (PlainBS (cfs f)) of
                      Inl p \<Rightarrow> Inl p
                    | Inr ((oldData, st), f') \<Rightarrow>
                        if st \<noteq> OK then Inr (([], st), f')
                        else Inr ((MergeBlocks (cfs f) oldData blockData (Skip b), OK), f')
               else Inr ((blockData, OK), f)) of
           Inl p \<Rightarrow> Inl p
         | Inr ((merged, rstatus), f1) \<Rightarrow>
             if rstatus \<noteq> OK then Inr ((written, rstatus), f1)
             else
               let blockOffset = fst (BlockCiphertextRange b);
                   encrypted = EncryptBlock (cfs f) merged (BlockNo b);
                   (err, b2) = WriteAt (file_fd f1) encrypted blockOffset;
                   f2 = f1\<lparr>file_fd := b2\<rparr>
               in if err \<noteq> None then Inr ((written, ToStatus err), f2)
                  else doWrite_loop f2 bs rest ((written + Length b mod 2 ^ 32) mod 2 ^ 32))"

definition doWrite ::
  "cryptFile \<Rightarrow> byte list \<Rightarrow> nat \<Rightarrow> go_panic + ((nat \<times> status) \<times> cryptFile)" where
  "doWrite f buf off = doWrite_loop f (SplitRange (cfs f) off (length buf)) buf 0"

text \<open>The loop of the growing branch of \<^verbatim>\<open>Truncate\<close>.\<close>

fun Truncate_grow :: "cryptFile \<Rightarrow> intraBlock list \<Rightarrow> go_panic + (status \<times> cryptFile)" where
  "Truncate_grow f [] = Inr (OK, f)"
| "Truncate_grow f (b # bs) =
     (if IsPartial b
      then case doWrite f (replicate (Length b) 0) (fst (PlaintextRange b) + Skip b) of
             Inl p \<Rightarrow> Inl p
           | Inr ((n, st), f1) \<Rightarrow> if st \<noteq> OK then Inr (st, f1) else Truncate_grow f1 bs
      else case Ftruncate (file_fd f) (fst (BlockCiphertextRange b) + snd (BlockCiphertextRange b)) of
             (err, b1) \<Rightarrow>
               if err \<noteq> None then Inr (ToStatus err, f\<lparr>file_fd := b1\<rparr>)
               else Truncate_grow (f\<lparr>file_fd := b1\<rparr>) bs)"

text \<open>
  \<^verbatim>\<open>Truncate\<close>. \<open>lastBlockLen\<close> is a \<^verbatim>\<open>uint64\<close> difference, which wraps around when
  \<open>plainOff\<close> is the larger.
\<close>

definition Truncate :: "cryptFile \<Rightarrow> nat \<Rightarrow> go_panic + (status \<times> cryptFile)" where
  "Truncate f newSize =
     (case Fstat (file_fd f) of
        ((fsize, err), b0) \<Rightarrow>
          let f0 = f\<lparr>file_fd := b0\<rparr> in
          if err \<noteq> None then Inr (ToStatus err, f0)
          else
            let oldSize = PlainSize (cfs f) fsize in
            if newSize > oldSize
            then Truncate_grow f0 (SplitRange (cfs f) oldSize (newSize - oldSize))
            else
              let blockNo = BlockNoPlainOff (cfs f) newSize;
                  cipherOff = blockNo * CipherBS (cfs f);
                  plainOff = blockNo * PlainBS (cfs f);
                  lastBlockLen = (if plainOff \<le> newSize then newSize - plainOff
                                  else 2 ^ 64 - (plainOff - newSize))
              in case (if lastBlockLen > 0 then doRead f0 plainOff lastBlockLen
                       else Inr (([], OK), f0)) of
                   Inl p \<Rightarrow> Inl p
                 | Inr ((buf, rstatus), f1) \<Rightarrow>
                     if rstatus \<noteq> OK then Inr (rstatus, f1)
                     else
                       let (terr, b2) = Ftruncate (file_fd f1) cipherOff;
                           f2 = f1\<lparr>file_fd := b2\<rparr>
                       in if terr \<noteq> None then Inr (ToStatus terr, f2)
                          else if lastBlockLen > 0
                               then case doWrite f2 buf plainOff of
                                      Inl p \<Rightarrow> Inl p
                                    | Inr ((n, st), f3) \<Rightarrow> Inr (st, f3)
                               else Inr (OK, f2))"

section \<open>cryptfs as the spec describes it\<close>

text \<open>
  The definitions of this section give the parameters of \<open>cryptfs\<close> the values that the
  spec describes, over any block cipher \<open>enc\<close>, \<open>dec\<close> (a ciphertext block and its
  block number to the plaintext, \<open>None\<close> when authentication fails), any plaintext block
  size \<open>pbs\<close> and any header length \<open>h\<close>. The spec has an 18-byte header and puts block
  \<open>i\<close> at byte \<open>18 + i * 4124\<close>; \<^verbatim>\<open>file.go\<close> as it stands addresses block \<open>i\<close> at
  \<open>i * CipherBS\<close> (in \<^verbatim>\<open>Truncate\<close>), which is the layout with \<open>h = 0\<close>.
\<close>

text \<open>
  Modelled from the spec: \<^verbatim>\<open>CiphertextRange\<close> of package \<^verbatim>\<open>cryptfs\<close>, which is not among
  the files at hand. "Given a plaintext (off, len) compute (aligned_off_cipher,
  aligned_len_cipher, skip_plain) that covers the minimal set of full ciphertext blocks
  needed to serve the request, and skip_plain = plaintext bytes to discard from the
  first decrypted block."
\<close>

definition spec_CiphertextRange :: "nat \<Rightarrow> nat \<Rightarrow> nat \<Rightarrow> nat \<Rightarrow> nat \<times> nat \<times> int" where
  "spec_CiphertextRange pbs h off len =
     (let cbs = NONCE_LEN + pbs + AUTH_TAG_LEN;
          firstBlock = off div pbs;
          nblocks = (if len = 0 then 0 else (off + len - 1) div pbs - firstBlock + 1)
      in (h + firstBlock * cbs, nblocks * cbs, int (off mod pbs)))"

text \<open>
  Modelled from the spec: \<^verbatim>\<open>DecryptBlocks\<close> of package \<^verbatim>\<open>cryptfs\<close>, which is not among the
  files at hand. "For each block it extracts nonce/tag, reconstructs AD from b0+i and
  the file ID, and authenticates. On failure it reports the index of the first bad block
  and returns no plaintext from that block onward." The input is cut into blocks of
  \<open>CipherBS\<close> bytes, the last one possibly shorter.
\<close>

function spec_DecryptBlocks ::
  "nat \<Rightarrow> (byte list \<Rightarrow> nat \<Rightarrow> byte list option) \<Rightarrow> byte list \<Rightarrow> nat
     \<Rightarrow> byte list \<times> error option" where
  "spec_DecryptBlocks pbs dec ct blockNo =
     (if ct = [] then ([], None)
      else case dec (take (NONCE_LEN + pbs + AUTH_TAG_LEN) ct) blockNo of
             None \<Rightarrow> ([], Some (AuthFailed blockNo))
           | Some p \<Rightarrow>
               (case spec_DecryptBlocks pbs dec (drop (NONCE_LEN + pbs + AUTH_TAG_LEN) ct)
                       (blockNo + 1) of
                  (ps, e) \<Rightarrow> (p @ ps, e)))"
  by pat_completeness auto
termination
  by (relation "measure (\<lambda>(pbs, dec, ct, blockNo). length ct)") (auto simp: NONCE_LEN_def)

declare spec_DecryptBlocks.simps [simp del]

text \<open>
  Modelled from the spec: \<^verbatim>\<open>PlainSize\<close> of package \<^verbatim>\<open>cryptfs\<close>, which is not among the files
  at hand. "plain_size(cipher_size) handles the header and last-block residual": every
  full block carries \<open>pbs\<close> plaintext bytes, the last block its length less nonce and
  tag. A size that the spec calls invalid gives the plaintext bytes of its full blocks.
\<close>

definition spec_PlainSize :: "nat \<Rightarrow> nat \<Rightarrow> nat \<Rightarrow> nat" where
  "spec_PlainSize pbs h fsize =
     (let cbs = NONCE_LEN + pbs + AUTH_TAG_LEN;
          body = fsize - h
      in (body div cbs) * pbs + (body mod cbs - (NONCE_LEN + AUTH_TAG_LEN)))"

text \<open>
  Modelled from the spec: \<^verbatim>\<open>BlockNoPlainOff\<close> of package \<^verbatim>\<open>cryptfs\<close>, which is not among the
  files at hand. "Block number: zero-based index of a plaintext block within its file."
\<close>

definition spec_BlockNoPlainOff :: "nat \<Rightarrow> nat \<Rightarrow> nat" where
  "spec_BlockNoPlainOff pbs off = off div pbs"

text \<open>
  Modelled from the spec: \<^verbatim>\<open>SplitRange\<close> of package \<^verbatim>\<open>cryptfs\<close> and the methods of the blocks
  it returns, which are not among the files at hand. "Given (off, len) return an ordered
  list of BlockWrite records: {block_no, skip_in_block, length_in_block, is_partial}. A
  block is partial when either (a) skip_in_block > 0 or (b) skip_in_block +
  length_in_block < PlainBS." The spec excepts a block that lies wholly beyond the end
  of the file; \<^verbatim>\<open>SplitRange\<close> is not given the end of the file, so the exception is left
  out here (it only saves the read of a block that is not there).
\<close>

function spec_SplitRange :: "nat \<Rightarrow> nat \<Rightarrow> nat \<Rightarrow> nat \<Rightarrow> intraBlock list" where
  "spec_SplitRange pbs h off len =
     (if len = 0 \<or> pbs = 0 then []
      else
        let blockNo = off div pbs;
            skip = off mod pbs;
            n = min len (pbs - skip)
        in \<lparr> BlockNo = blockNo, Skip = skip, Length = n,
             IsPartial = (0 < skip \<or> skip + n < pbs),
             PlaintextRange = (blockNo * pbs, pbs),
             BlockCiphertextRange =
               (h + blockNo * (NONCE_LEN + pbs + AUTH_TAG_LEN), NONCE_LEN + pbs + AUTH_TAG_LEN) \<rparr>
           # spec_SplitRange pbs h (off + n) (len - n))"
  by pat_completeness auto
termination
  by (relation "measure (\<lambda>(pbs, h, off, len). len)") (auto simp: min_def)

declare spec_SplitRange.simps [simp del]

text \<open>
  Modelled from the spec: \<^verbatim>\<open>MergeBlocks\<close> of package \<^verbatim>\<open>cryptfs\<close>, which is not among the
  files at hand. "Merge the new bytes at skip": the old block, filled with zero bytes
  up to \<open>skip\<close> when it is shorter, with the new bytes laid over it from \<open>skip\<close> on.
\<close>

definition spec_MergeBlocks :: "byte list \<Rightarrow> byte list \<Rightarrow> nat \<Rightarrow> byte list" where
  "spec_MergeBlocks oldData newData skip =
     take skip oldData @ replicate (skip - length oldData) 0 @ newData
     @ drop (skip + length newData) oldData"

definition spec_cfs ::
  "nat \<Rightarrow> nat \<Rightarrow> (byte list \<Rightarrow> nat \<Rightarrow> byte list)
     \<Rightarrow> (byte list \<Rightarrow> nat \<Rightarrow> byte list option) \<Rightarrow> cryptfs" where
  "spec_cfs pbs h enc dec =
     \<lparr> PlainBS = pbs,
       CiphertextRange = spec_CiphertextRange pbs h,
       DecryptBlocks = spec_DecryptBlocks pbs dec,
       EncryptBlock = enc,
       PlainSize = spec_PlainSize pbs h,
       BlockNoPlainOff = spec_BlockNoPlainOff pbs,
       SplitRange = spec_SplitRange pbs h,
       MergeBlocks = spec_MergeBlocks \<rparr>"

text \<open>
  A block cipher for evaluation. It is not a cipher: the nonce is twelve times the low
  byte of the block number, the ciphertext is the plaintext, the tag is sixteen bytes
  \<open>0xAA\<close>; decryption checks the length, the nonce and the tag.
\<close>

definition demo_nonce :: "nat \<Rightarrow> byte list" where
  "demo_nonce blockNo =
     (let b = of_nat blockNo in [b, b, b, b, b, b, b, b, b, b, b, b])"

definition demo_tag :: "byte list" where
  "demo_tag = [170, 170, 170, 170, 170, 170, 170, 170, 170, 170, 170, 170, 170, 170, 170, 170]"

definition demo_enc :: "byte list \<Rightarrow> nat \<Rightarrow> byte list" where
  "demo_enc plaintext blockNo = demo_nonce blockNo @ plaintext @ demo_tag"

definition demo_dec :: "byte list \<Rightarrow> nat \<Rightarrow> byte list option" where
  "demo_dec blk blockNo =
     (if length blk < 28 \<or> take 12 blk \<noteq> demo_nonce blockNo
         \<or> drop (length blk - 16) blk \<noteq> demo_tag
      then None
      else Some (take (length blk - 28) (drop 12 blk)))"

text \<open>
  An open file for evaluation: the plaintext block size as given, no header, the backing
  file as given, no call made yet, and the fault plan as given.
\<close>

definition demo_file :: "nat \<Rightarrow> byte list \<Rightarrow> (nat \<Rightarrow> errno option) \<Rightarrow> cryptFile" where
  "demo_file pbs bytes plan =
     \<lparr> file_fd = \<lparr> content = bytes, trace = [], faults = plan \<rparr>,
       writeOnly = False,
       cfs = spec_cfs pbs 0 demo_enc demo_dec,
       file_ino = 1 \<rparr>"

definition no_faults :: "nat \<Rightarrow> errno option" where
  "no_faults n = None"

text \<open>The calls that \<^verbatim>\<open>doRead\<close> and \<^verbatim>\<open>doWrite\<close> issue: positioned reads and writes.\<close>

fun is_rw :: "fevent \<Rightarrow> bool" where
  "is_rw (EvReadAt off n) = True"
| "is_rw (EvWriteAt off buf) = True"
| "is_rw EvFstat = False"
| "is_rw (EvFtruncate n) = False"

text \<open>The plaintext \<^verbatim>\<open>hello\<close> of the scenarios in the spec.\<close>

definition hello :: "byte list" where
  "hello = [104, 101, 108, 108, 111]"


text \<open>
  Two backing files of two blocks each, for the block size 4: \<^verbatim>\<open>hell\<close> and \<^verbatim>\<open>o\<close>. In the
  second file block 1 carries the nonce of block 7, so it does not authenticate.
\<close>

definition two_blocks :: "byte list" where
  "two_blocks = demo_enc [104, 101, 108, 108] 0 @ demo_enc [111] 1"

definition two_blocks_bad :: "byte list" where
  "two_blocks_bad = demo_enc [104, 101, 108, 108] 0 @ demo_enc [111] 7"

text \<open>
  What a call returned, and the backing file it left, for a call that ended in a panic
  or returned a value together with the open file.
\<close>

definition result_of :: "go_panic + ('a \<times> cryptFile) \<Rightarrow> go_panic + 'a" where
  "result_of r = (case r of Inl p \<Rightarrow> Inl p | Inr (x, f) \<Rightarrow> Inr x)"

definition file_after :: "go_panic + ('a \<times> cryptFile) \<Rightarrow> backing option" where
  "file_after r = (case r of Inl p \<Rightarrow> None | Inr (x, f) \<Rightarrow> Some (file_fd f))"

section \<open>Evaluation helpers\<close>

lemma replicate_numeral_Cons:
  "replicate (numeral k) x = x # replicate (pred_numeral k) x"
  by (simp add: numeral_eq_Suc)

section \<open>Claim C6: encrypt-and-hash of a file name\<close>

text \<open>
  C6 (as amended). For every name and directory IV, \<^verbatim>\<open>EncryptAndHashName\<close> returns the
  encrypted name whenever that name is at most \<open>NAME_MAX\<close> bytes long; it returns the
  long-name stand-in whenever the encrypted name is longer than \<open>NAME_MAX\<close> and the
  \<^verbatim>\<open>longNames\<close> feature is on; with the feature off it returns the encrypted name
  whatever its length.
\<close>

theorem EncryptAndHashName_cases:
  "(length (EncryptName be name dirIV) \<le> NAME_MAX \<longrightarrow>
      EncryptAndHashName be name dirIV = EncryptName be name dirIV)
   \<and> (longNames be \<and> NAME_MAX < length (EncryptName be name dirIV) \<longrightarrow>
      EncryptAndHashName be name dirIV = HashLongName be (EncryptName be name dirIV))
   \<and> (\<not> longNames be \<longrightarrow>
      EncryptAndHashName be name dirIV = EncryptName be name dirIV)"
  by (simp add: EncryptAndHashName_def Let_def)

theorem EncryptAndHashName_cases_witness:
  "length (EncryptName (demo_names True 256) ''a'' []) = 256
   \<and> EncryptAndHashName (demo_names True 256) ''a'' [] = ''gocryptfs.longname.AAAAAAAA''
   \<and> EncryptAndHashName (demo_names True 3) ''a'' [] = ''AAA''
   \<and> EncryptAndHashName (demo_names False 3) ''a'' [] = ''AAA''"
  using EncryptAndHashName_cases [of "demo_names True 256" "''a''" "[]"]
    EncryptAndHashName_cases [of "demo_names True 3" "''a''" "[]"]
    EncryptAndHashName_cases [of "demo_names False 3" "''a''" "[]"]
  by (simp add: demo_names_def NAME_MAX_def replicate_numeral_Cons)

text \<open>
  The claim as first stated fails with the feature off: a 256-byte encrypted name is
  returned as it is, not replaced by its stand-in.
\<close>

theorem EncryptAndHashName_longNames_off_counterexample:
  "NAME_MAX < length (EncryptName (demo_names False 256) ''a'' [])
   \<and> EncryptAndHashName (demo_names False 256) ''a'' [] =
       EncryptName (demo_names False 256) ''a'' []
   \<and> EncryptAndHashName (demo_names False 256) ''a'' [] \<noteq>
       HashLongName (demo_names False 256) (EncryptName (demo_names False 256) ''a'' [])"
  by (simp add: EncryptAndHashName_def demo_names_def NAME_MAX_def replicate_numeral_Cons)

section \<open>Claim C10: clearing the directory cache\<close>

lemma entry_Clear_fst: "fst (dirCacheEntryStruct_Clear e os) = dirCacheEntry_empty"
  by (cases e) (simp add: dirCacheEntryStruct_Clear_def dirCacheEntry_empty_def Let_def)

lemma entry_Clear_closes:
  "closes (snd (dirCacheEntryStruct_Clear e os)) = closes os @ (if 0 < fd e then [fd e] else [])"
  by (simp add: dirCacheEntryStruct_Clear_def sys_Close_def Let_def)

lemma entry_Clear_empty:
  "dirCacheEntryStruct_Clear dirCacheEntry_empty os = (dirCacheEntry_empty, os)"
  by (simp add: dirCacheEntryStruct_Clear_def dirCacheEntry_empty_def Let_def)

lemma Clear_entries_fst:
  "fst (Clear_entries es os) = replicate (length es) dirCacheEntry_empty"
proof (induction es arbitrary: os)
  case Nil
  show ?case by simp
next
  case (Cons e es)
  have "fst (dirCacheEntryStruct_Clear e os) = dirCacheEntry_empty"
    by (rule entry_Clear_fst)
  with Cons show ?case
    by (simp add: split_beta)
qed

lemma Clear_entries_closes:
  "closes (snd (Clear_entries es os)) = closes os @ filter (\<lambda>n. 0 < n) (map fd es)"
proof (induction es arbitrary: os)
  case Nil
  show ?case by simp
next
  case (Cons e es)
  show ?case
    by (simp add: split_beta Cons entry_Clear_closes)
qed

lemma Clear_entries_empty:
  "Clear_entries (replicate n dirCacheEntry_empty) os = (replicate n dirCacheEntry_empty, os)"
  by (induction n) (simp_all add: entry_Clear_empty)

text \<open>
  C10. After \<^verbatim>\<open>dirCacheStruct.Clear\<close> every slot is in the empty state (descriptor
  \<open>-1\<close>, empty path, \<^verbatim>\<open>nil\<close> IV). The \<^verbatim>\<open>close\<close> calls it issues are exactly the
  positive descriptors of the slots, each once and in slot order; a slot whose
  descriptor is \<open>\<le> 0\<close> is not closed. A second \<^verbatim>\<open>Clear\<close> right after the first changes
  nothing and issues no \<^verbatim>\<open>close\<close>: the cache, the descriptor table and the log of
  \<^verbatim>\<open>close\<close> calls stay as the first one left them.
\<close>

theorem dirCache_Clear_empties_and_closes_once:
  "entries (fst (dirCacheStruct_Clear d os)) = replicate (length (entries d)) dirCacheEntry_empty
   \<and> closes (snd (dirCacheStruct_Clear d os)) =
       closes os @ filter (\<lambda>n. 0 < n) (map fd (entries d))
   \<and> dirCacheStruct_Clear (fst (dirCacheStruct_Clear d os)) (snd (dirCacheStruct_Clear d os)) =
       dirCacheStruct_Clear d os"
proof -
  obtain es' os' where c: "Clear_entries (entries d) os = (es', os')"
    by (cases "Clear_entries (entries d) os")
  have es': "es' = replicate (length (entries d)) dirCacheEntry_empty"
    using Clear_entries_fst [of "entries d" os] c by simp
  have cl: "closes os' = closes os @ filter (\<lambda>n. 0 < n) (map fd (entries d))"
    using Clear_entries_closes [of "entries d" os] c by simp
  have again: "Clear_entries es' os' = (es', os')"
    unfolding es' by (rule Clear_entries_empty)
  show ?thesis
    by (simp add: dirCacheStruct_Clear_def c again) (simp add: es' cl)
qed

section \<open>Lemmas about the descriptor table and the cache operations\<close>

subsection \<open>Facts about the descriptor table\<close>

lemma lowest_free_Some:
  "lowest_free tab = Some m \<Longrightarrow> m < length tab \<and> tab ! m = None"
proof (induction tab arbitrary: m)
  case Nil
  then show ?case by simp
next
  case (Cons x tab)
  show ?case
  proof (cases x)
    case None
    with Cons.prems show ?thesis by simp
  next
    case (Some inode)
    with Cons.prems obtain k where k: "lowest_free tab = Some k" "m = Suc k"
      by auto
    from Cons.IH [OF k(1)] k(2) show ?thesis by simp
  qed
qed

lemma lowest_free_None:
  "lowest_free tab = None \<Longrightarrow> filter (\<lambda>x. x = None) tab = []"
proof (induction tab)
  case Nil
  show ?case by simp
next
  case (Cons x tab)
  then show ?case by (cases x) auto
qed

lemma free_after_update:
  "length (filter (\<lambda>x. x = None) tab) \<le> Suc (length (filter (\<lambda>x. x = None) (tab[m := v])))"
proof (induction tab arbitrary: m)
  case Nil
  show ?case by simp
next
  case (Cons x tab)
  show ?case
  proof (cases m)
    case 0
    then show ?thesis by simp
  next
    case (Suc k)
    with Cons [of k] show ?thesis by simp
  qed
qed

lemma free_after_release:
  "length (filter (\<lambda>x. x = None) tab) \<le> length (filter (\<lambda>x. x = None) (tab[m := None]))"
proof (induction tab arbitrary: m)
  case Nil
  show ?case by simp
next
  case (Cons x tab)
  show ?case
  proof (cases m)
    case 0
    then show ?thesis by simp
  next
    case (Suc k)
    with Cons [of k] show ?thesis by simp
  qed
qed

text \<open>A successful \<^verbatim>\<open>Dup\<close>: what it returns and what it changes.\<close>

lemma sys_Dup_ok:
  assumes "sys_Dup n os = ((n', None), os')"
  shows "fd_open os n \<and> 0 \<le> n' \<and> \<not> fd_open os n' \<and> fd_open os' n'
         \<and> fd_inode os' n' = fd_inode os n
         \<and> fdtab os' = (fdtab os)[nat n' := fdtab os ! nat n]
         \<and> closes os' = closes os"
proof -
  from assms have op: "fd_open os n"
    by (auto simp: sys_Dup_def split: if_splits)
  with assms obtain m where m: "lowest_free (fdtab os) = Some m" "n' = int m"
    "os' = os\<lparr>fdtab := (fdtab os)[m := fdtab os ! nat n]\<rparr>"
    by (auto simp: sys_Dup_def split: option.splits)
  from lowest_free_Some [OF m(1)] have lt: "m < length (fdtab os)" and free: "fdtab os ! m = None"
    by simp_all
  from op have "fdtab os ! nat n \<noteq> None"
    by (simp add: fd_open_def)
  with m lt free op show ?thesis
    by (simp add: fd_open_def fd_inode_def)
qed

lemma sys_Dup_err:
  assumes "sys_Dup n os = ((n', Some e), os')"
  shows "os' = os \<and> n' = - 1"
  using assms by (auto simp: sys_Dup_def split: if_splits option.splits)

lemma sys_Dup_succeeds:
  assumes "fd_open os n" and "0 < free_fds os"
  shows "\<exists>n' os'. sys_Dup n os = ((n', None), os')"
proof (cases "lowest_free (fdtab os)")
  case None
  from lowest_free_None [OF None] assms(2) show ?thesis
    by (simp add: free_fds_def)
next
  case (Some m)
  with assms(1) show ?thesis
    by (simp add: sys_Dup_def)
qed

lemma sys_Dup_keeps_open:
  assumes "sys_Dup n os = ((n', err), os')" and "fd_open os k"
  shows "fd_open os' k \<and> fd_inode os' k = fd_inode os k"
proof (cases err)
  case None
  with assms(1) have ok: "\<not> fd_open os n'" "fdtab os' = (fdtab os)[nat n' := fdtab os ! nat n]"
    "0 \<le> n'"
    using sys_Dup_ok [of n os n' os'] by simp_all
  from ok(1) assms(2) have "n' \<noteq> k" by auto
  moreover from assms(2) have "0 \<le> k" by (simp add: fd_open_def)
  ultimately have "nat n' \<noteq> nat k"
    using ok(3) by arith
  with assms(2) ok(2) show ?thesis
    by (simp add: fd_open_def fd_inode_def)
next
  case (Some e)
  with assms(1) have "os' = os"
    using sys_Dup_err [of n os n' e os'] by simp
  then show ?thesis
    using assms(2) by simp
qed

lemma sys_Dup_above_2:
  assumes "sys_Dup n os = ((n', None), os')" and "fds012_open os"
  shows "3 \<le> n'"
proof -
  from sys_Dup_ok [OF assms(1)] have "0 \<le> n'" and "\<not> fd_open os n'"
    by simp_all
  moreover from assms(2) have "fd_open os 0" "fd_open os 1" "fd_open os 2"
    by (simp_all add: fds012_open_def)
  ultimately have "n' \<noteq> 0" "n' \<noteq> 1" "n' \<noteq> 2"
    by auto
  with \<open>0 \<le> n'\<close> show ?thesis by arith
qed

lemma sys_Dup_keeps_012:
  assumes "sys_Dup n os = ((n', err), os')" and "fds012_open os"
  shows "fds012_open os'"
  using sys_Dup_keeps_open [OF assms(1)] assms(2)
  by (simp add: fds012_open_def)

subsection \<open>Facts about clearing a slot\<close>

lemma entry_Clear_cases:
  assumes "dirCacheEntryStruct_Clear e os = (e', os')"
  shows "e' = dirCacheEntry_empty
         \<and> (fdtab os' = fdtab os \<or> (0 < fd e \<and> fdtab os' = (fdtab os)[nat (fd e) := None]))"
proof -
  from assms have "e' = fst (dirCacheEntryStruct_Clear e os)" by simp
  then have e': "e' = dirCacheEntry_empty"
    by (simp add: entry_Clear_fst)
  from assms have "fdtab os' = fdtab os \<or> (0 < fd e \<and> fdtab os' = (fdtab os)[nat (fd e) := None])"
    by (auto simp: dirCacheEntryStruct_Clear_def sys_Close_def Let_def split: if_splits)
  with e' show ?thesis by simp
qed

lemma entry_Clear_keeps_open:
  assumes "dirCacheEntryStruct_Clear e os = (e', os')" and "fd_open os k"
    and "fd e \<le> 0 \<or> k \<noteq> fd e"
  shows "fd_open os' k \<and> fd_inode os' k = fd_inode os k"
proof -
  from entry_Clear_cases [OF assms(1)]
  consider "fdtab os' = fdtab os"
    | "0 < fd e" "fdtab os' = (fdtab os)[nat (fd e) := None]"
    by auto
  then show ?thesis
  proof cases
    case 1
    with assms(2) show ?thesis
      by (simp add: fd_open_def fd_inode_def)
  next
    case 2
    from assms(2) have "0 \<le> k" by (simp add: fd_open_def)
    with 2(1) assms(3) have "nat k \<noteq> nat (fd e)" by arith
    with 2(2) assms(2) show ?thesis
      by (simp add: fd_open_def fd_inode_def)
  qed
qed

lemma entry_Clear_keeps_012:
  assumes "dirCacheEntryStruct_Clear e os = (e', os')" and "fds012_open os"
    and "fd e \<le> 0 \<or> 3 \<le> fd e"
  shows "fds012_open os'"
proof -
  from assms(3) have "fd e \<le> 0 \<or> 0 \<noteq> fd e" "fd e \<le> 0 \<or> 1 \<noteq> fd e"
    "fd e \<le> 0 \<or> 2 \<noteq> fd e" by auto
  with assms(2) entry_Clear_keeps_open [OF assms(1)] show ?thesis
    by (simp add: fds012_open_def)
qed

lemma entry_Clear_free:
  assumes "dirCacheEntryStruct_Clear e os = (e', os')"
  shows "free_fds os \<le> free_fds os'"
  using entry_Clear_cases [OF assms] free_after_release [of "fdtab os" "nat (fd e)"]
  by (auto simp: free_fds_def)

lemma Clear_entries_keeps_012:
  assumes "Clear_entries es os = (es', os')" and "fds012_open os"
    and "\<forall>e \<in> set es. fd e \<le> 0 \<or> 3 \<le> fd e"
  shows "fds012_open os'"
  using assms
proof (induction es arbitrary: os es' os')
  case Nil
  then show ?case by simp
next
  case (Cons e es)
  obtain e1 os1 where c1: "dirCacheEntryStruct_Clear e os = (e1, os1)"
    by (cases "dirCacheEntryStruct_Clear e os")
  obtain es2 os2 where c2: "Clear_entries es os1 = (es2, os2)"
    by (cases "Clear_entries es os1")
  from Cons.prems(1) c1 c2 have "os' = os2" by simp
  moreover from entry_Clear_keeps_012 [OF c1 Cons.prems(2)] Cons.prems(3)
  have "fds012_open os1" by simp
  moreover from Cons.prems(3) have "\<forall>e \<in> set es. fd e \<le> 0 \<or> 3 \<le> fd e" by simp
  ultimately show ?case
    using Cons.IH [OF c2] by simp
qed

subsection \<open>What Store and Lookup compute\<close>

lemma Store_unfold:
  assumes "0 < fd0" and "length iv0 = DirIVLen" and "nextIndex d < length (entries d)"
    and "dirCacheEntryStruct_Clear (entries d ! nextIndex d) os = (e1, os1)"
    and "sys_Dup fd0 os1 = ((fd2, err), os2)"
  shows "Store d p fd0 iv0 os =
           Inr (if err \<noteq> None
                then d\<lparr>nextIndex := (nextIndex d + 1) mod dirCacheSize,
                       entries := (entries d)[nextIndex d := dirCacheEntry_empty]\<rparr>
                else d\<lparr>nextIndex := (nextIndex d + 1) mod dirCacheSize,
                       entries := (entries d)[nextIndex d :=
                                     \<lparr>dirRelPath = p, fd = fd2, iv = iv0\<rparr>],
                       expireThreadRunning := True\<rparr>, os2)"
proof -
  from entry_Clear_cases [OF assms(4)] have e1: "e1 = dirCacheEntry_empty" by simp
  show ?thesis
    using assms by (simp add: Store_def Let_def e1 dirCacheEntry_empty_def)
qed

lemma Store_panics_iff:
  assumes "nextIndex d < length (entries d)"
  shows "(\<exists>x. Store d p fd0 iv0 os = Inl x) = (fd0 \<le> 0 \<or> length iv0 \<noteq> DirIVLen)"
  using assms by (auto simp: Store_def Let_def split_beta)

lemma Lookup_loop_Inl:
  "Lookup_loop es p os = Inl os1 \<Longrightarrow> os1 = os"
proof (induction es)
  case Nil
  then show ?case by simp
next
  case (Cons e es)
  obtain n' err os' where dup: "sys_Dup (fd e) os = ((n', err), os')"
    by (cases "sys_Dup (fd e) os") auto
  show ?case
  proof (cases "fd e \<le> 0 \<or> p \<noteq> dirRelPath e")
    case True
    with Cons.prems have "Lookup_loop es p os = Inl os1"
      by (auto split: if_splits)
    then show ?thesis by (rule Cons.IH)
  next
    case False
    with Cons.prems dup obtain x where "err = Some x" "os1 = os'"
      by (auto split: if_splits)
    with dup sys_Dup_err [of "fd e" os n' x os'] show ?thesis by simp
  qed
qed

lemma Lookup_loop_Inr:
  "Lookup_loop es p os = Inr (n, v, os1) \<Longrightarrow>
     (n = 0 \<and> v = [] \<and> os1 = os)
     \<or> (\<exists>e \<in> set es. 0 < fd e \<and> dirRelPath e = p \<and> v = iv e
            \<and> sys_Dup (fd e) os = ((n, None), os1))"
proof (induction es)
  case Nil
  then show ?case by simp
next
  case (Cons e es)
  obtain n' err os' where dup: "sys_Dup (fd e) os = ((n', err), os')"
    by (cases "sys_Dup (fd e) os") auto
  show ?case
  proof (cases "fd e \<le> 0 \<or> p \<noteq> dirRelPath e")
    case True
    with Cons.prems have "Lookup_loop es p os = Inr (n, v, os1)"
      by (auto split: if_splits)
    from Cons.IH [OF this] show ?thesis by auto
  next
    case False
    with Cons.prems dup have "err = None" "n = n'" "v = iv e" "os1 = os'"
      by (auto split: if_splits)
    with dup False show ?thesis by auto
  qed
qed

lemma Lookup_loop_miss:
  "\<forall>e \<in> set es. 0 < fd e \<longrightarrow> dirRelPath e \<noteq> p \<Longrightarrow> Lookup_loop es p os = Inr (0, [], os)"
  by (induction es) auto

lemma Lookup_loop_first:
  assumes "i < length es"
    and "\<forall>j < i. \<not> (0 < fd (es ! j) \<and> dirRelPath (es ! j) = p)"
    and "0 < fd (es ! i)" and "dirRelPath (es ! i) = p"
    and "sys_Dup (fd (es ! i)) os = ((n, None), os1)"
  shows "Lookup_loop es p os = Inr (n, iv (es ! i), os1)"
  using assms
proof (induction es arbitrary: i)
  case Nil
  then show ?case by simp
next
  case (Cons e es)
  show ?case
  proof (cases i)
    case 0
    with Cons.prems show ?thesis by simp
  next
    case (Suc k)
    with Cons.prems(2) have skip: "\<not> (0 < fd e \<and> dirRelPath e = p)" by auto
    from Suc Cons.prems(2) have "\<forall>j < k. \<not> (0 < fd (es ! j) \<and> dirRelPath (es ! j) = p)" by auto
    with Cons.IH [of k] Cons.prems Suc have "Lookup_loop es p os = Inr (n, iv (es ! k), os1)"
      by simp
    with skip Suc show ?thesis by auto
  qed
qed

section \<open>Lemmas about the cache invariant\<close>

lemma cache_inv_zero: "cache_inv dirCache_zero"
  by (simp add: cache_inv_def dirCache_zero_def dirCacheEntry_zero_def dirCacheSize_def)

lemma cache_inv_update:
  assumes "cache_inv d" and "fd e \<le> 0 \<or> (3 \<le> fd e \<and> length (iv e) = DirIVLen)"
  shows "cache_inv (d\<lparr>nextIndex := (nextIndex d + 1) mod dirCacheSize,
                       entries := (entries d)[i := e]\<rparr>)"
    and "cache_inv (d\<lparr>nextIndex := (nextIndex d + 1) mod dirCacheSize,
                       entries := (entries d)[i := e], expireThreadRunning := b\<rparr>)"
proof -
  have "\<forall>x \<in> set ((entries d)[i := e]). fd x \<le> 0 \<or> (3 \<le> fd x \<and> length (iv x) = DirIVLen)"
  proof
    fix x
    assume "x \<in> set ((entries d)[i := e])"
    then have "x = e \<or> x \<in> set (entries d)"
      using set_update_subset_insert [of "entries d" i e] by auto
    with assms show "fd x \<le> 0 \<or> (3 \<le> fd x \<and> length (iv x) = DirIVLen)"
      by (auto simp: cache_inv_def)
  qed
  with assms(1) show "cache_inv (d\<lparr>nextIndex := (nextIndex d + 1) mod dirCacheSize,
                       entries := (entries d)[i := e]\<rparr>)"
    and "cache_inv (d\<lparr>nextIndex := (nextIndex d + 1) mod dirCacheSize,
                       entries := (entries d)[i := e], expireThreadRunning := b\<rparr>)"
    by (simp_all add: cache_inv_def dirCacheSize_def)
qed

lemma Store_keeps_inv:
  assumes inv: "cache_inv d" and os: "fds012_open os"
    and st: "Store d p fd0 iv0 os = Inr (d', os')"
  shows "cache_inv d' \<and> fds012_open os'"
proof -
  from inv have idx: "nextIndex d < length (entries d)"
    by (simp add: cache_inv_def)
  from Store_panics_iff [OF idx, of p fd0 iv0 os] st
  have ok: "0 < fd0" "length iv0 = DirIVLen" by auto
  obtain e1 os1 where c: "dirCacheEntryStruct_Clear (entries d ! nextIndex d) os = (e1, os1)"
    by (cases "dirCacheEntryStruct_Clear (entries d ! nextIndex d) os")
  obtain fd2 err os2 where dup: "sys_Dup fd0 os1 = ((fd2, err), os2)"
    by (cases "sys_Dup fd0 os1") auto
  from inv idx have slot: "fd (entries d ! nextIndex d) \<le> 0 \<or> 3 \<le> fd (entries d ! nextIndex d)"
    by (auto simp: cache_inv_def dest: nth_mem)
  from entry_Clear_keeps_012 [OF c os slot] have os1: "fds012_open os1" .
  from sys_Dup_keeps_012 [OF dup os1] have os2: "fds012_open os2" .
  show ?thesis
  proof (cases err)
    case None
    with dup os1 have "3 \<le> fd2"
      using sys_Dup_above_2 [of fd0 os1 fd2 os2] by simp
    with ok(2) have "cache_inv (d\<lparr>nextIndex := (nextIndex d + 1) mod dirCacheSize,
        entries := (entries d)[nextIndex d := \<lparr>dirRelPath = p, fd = fd2, iv = iv0\<rparr>],
        expireThreadRunning := True\<rparr>)"
      by (intro cache_inv_update [OF inv]) simp
    with st Store_unfold [OF ok idx c dup, of p] None os2 show ?thesis
      by simp
  next
    case (Some x)
    have "cache_inv (d\<lparr>nextIndex := (nextIndex d + 1) mod dirCacheSize,
        entries := (entries d)[nextIndex d := dirCacheEntry_empty]\<rparr>)"
      by (intro cache_inv_update [OF inv]) (simp add: dirCacheEntry_empty_def)
    with st Store_unfold [OF ok idx c dup, of p] Some os2 show ?thesis
      by simp
  qed
qed

lemma Lookup_keeps_inv:
  assumes inv: "cache_inv d" and os: "fds012_open os"
  shows "\<exists>r os'. Lookup d p os = Inr (r, d, os') \<and> fds012_open os'
           \<and> (r = (- 1, []) \<or> (3 \<le> fst r \<and> length (snd r) = DirIVLen))"
proof (cases "Lookup_loop (entries d) p os")
  case (Inl os1)
  from Lookup_loop_Inl [OF Inl] have "os1 = os" .
  with Inl os show ?thesis
    by (simp add: Lookup_def enableStats_def)
next
  case (Inr t)
  obtain n v os1 where t: "t = (n, v, os1)" by (cases t)
  from Lookup_loop_Inr [OF Inr [unfolded t]]
  consider "n = 0" "v = []" "os1 = os"
    | e where "e \<in> set (entries d)" "0 < fd e" "v = iv e" "sys_Dup (fd e) os = ((n, None), os1)"
    by auto
  then show ?thesis
  proof cases
    case 1
    with Inr t os show ?thesis
      by (simp add: Lookup_def enableStats_def)
  next
    case 2
    from sys_Dup_above_2 [OF 2(4) os] have n: "3 \<le> n" .
    from sys_Dup_keeps_012 [OF 2(4) os] have os1: "fds012_open os1" .
    from inv 2(1,2) have "length (iv e) = DirIVLen"
      by (auto simp: cache_inv_def)
    with Inr t n os1 2(3) show ?thesis
      by (simp add: Lookup_def enableStats_def)
  qed
qed

lemma Clear_keeps_inv:
  assumes inv: "cache_inv d" and os: "fds012_open os"
    and cl: "dirCacheStruct_Clear d os = (d', os')"
  shows "cache_inv d' \<and> fds012_open os'"
proof -
  obtain es1 os1 where c: "Clear_entries (entries d) os = (es1, os1)"
    by (cases "Clear_entries (entries d) os")
  from inv have "\<forall>e \<in> set (entries d). fd e \<le> 0 \<or> 3 \<le> fd e"
    by (auto simp: cache_inv_def)
  from Clear_entries_keeps_012 [OF c os this] have "fds012_open os1" .
  moreover from Clear_entries_fst [of "entries d" os] c
  have "es1 = replicate (length (entries d)) dirCacheEntry_empty" by simp
  ultimately show ?thesis
    using inv cl c by (auto simp: dirCacheStruct_Clear_def cache_inv_def dirCacheEntry_empty_def)
qed

lemma cache_step_keeps_inv:
  assumes "cache_inv d" and "fds012_open os" and "cache_step c (d, os) = Inr (rs, d', os')"
  shows "cache_inv d' \<and> fds012_open os'
         \<and> (\<forall>r \<in> set rs. r = (- 1, []) \<or> (3 \<le> fst r \<and> length (snd r) = DirIVLen))"
proof (cases c)
  case (OpStore p fd0 iv0)
  with assms(3) have "Store d p fd0 iv0 os = Inr (d', os')" "rs = []"
    by (auto split: sum.splits)
  with Store_keeps_inv [OF assms(1,2)] show ?thesis by simp
next
  case (OpLookup p)
  from Lookup_keeps_inv [OF assms(1,2), of p] OpLookup assms(1,3) show ?thesis
    by auto
next
  case OpClear
  with assms(3) have "dirCacheStruct_Clear d os = (d', os')" "rs = []"
    by (auto split: prod.splits)
  with Clear_keeps_inv [OF assms(1,2)] show ?thesis by simp
qed

lemma cache_run_keeps_inv:
  assumes "cache_inv d" and "fds012_open os" and "cache_run cs (d, os) = Inr (rs, d', os')"
  shows "cache_inv d' \<and> fds012_open os'
         \<and> (\<forall>r \<in> set rs. r = (- 1, []) \<or> (3 \<le> fst r \<and> length (snd r) = DirIVLen))"
  using assms
proof (induction cs arbitrary: d os rs)
  case Nil
  then show ?case by simp
next
  case (Cons c cs)
  from Cons.prems(3) obtain rs1 d1 os1 rs2 where
    step: "cache_step c (d, os) = Inr (rs1, d1, os1)"
    and rest: "cache_run cs (d1, os1) = Inr (rs2, d', os')"
    and rs: "rs = rs1 @ rs2"
    by (auto split: sum.splits)
  from cache_step_keeps_inv [OF Cons.prems(1,2) step]
  have 1: "cache_inv d1" "fds012_open os1"
    "\<forall>r \<in> set rs1. r = (- 1, []) \<or> (3 \<le> fst r \<and> length (snd r) = DirIVLen)"
    by simp_all
  from Cons.IH [OF 1(1,2) rest] 1(3) rs show ?case
    by auto
qed


lemmas cache_eval =
  Store_def Lookup_def dirCacheStruct_Clear_def dirCacheEntryStruct_Clear_def
  sys_Dup_def sys_Close_def fd_open_def fd_inode_def dirCache_zero_def dirCacheEntry_zero_def
  dirCacheEntry_empty_def demo_os_def demo_iv_def DirIVLen_def dirCacheSize_def enableStats_def
  Let_def


section \<open>Claim C5: descriptors 0, 1 and 2 and the cache\<close>

text \<open>
  C5 (as amended). In a process whose descriptors 0, 1 and 2 are open (the guarantee of
  \<^verbatim>\<open>ensurefds012\<close> that the comments in \<^verbatim>\<open>Store\<close> and \<^verbatim>\<open>Clear\<close> rely on), and from a
  cache in the shape \<open>cache_inv\<close> (the zero value is one): after every sequence of
  \<^verbatim>\<open>Store\<close>, \<^verbatim>\<open>Lookup\<close> and \<^verbatim>\<open>Clear\<close> calls that ran without a panic, the cache is in
  that shape again, descriptors 0, 1 and 2 are still open, every slot holds either no
  descriptor (\<open>fd \<le> 0\<close>) or a descriptor of at least 3, and every \<^verbatim>\<open>Lookup\<close> returned
  either the miss \<open>(-1, nil)\<close> or a descriptor of at least 3. \<^verbatim>\<open>Store\<close> panics exactly
  when the descriptor passed is \<open>\<le> 0\<close> or the IV is not 16 bytes long, so the
  descriptors 1 and 2 are not refused by the check; \<^verbatim>\<open>Lookup\<close> never panics.
\<close>

theorem dirCache_descriptors_above_2:
  assumes "cache_inv d" and "fds012_open os"
  shows "(cache_run cs (d, os) = Inr (rs, d', os') \<longrightarrow>
            cache_inv d' \<and> fds012_open os'
            \<and> (\<forall>e \<in> set (entries d'). fd e \<le> 0 \<or> 3 \<le> fd e)
            \<and> (\<forall>r \<in> set rs. r = (- 1, []) \<or> 3 \<le> fst r))
         \<and> ((\<exists>x. Store d p fd0 iv0 os = Inl x) = (fd0 \<le> 0 \<or> length iv0 \<noteq> DirIVLen))
         \<and> (\<forall>x. Lookup d p os \<noteq> Inl x)"
proof -
  have run: "cache_run cs (d, os) = Inr (rs, d', os') \<longrightarrow>
            cache_inv d' \<and> fds012_open os'
            \<and> (\<forall>e \<in> set (entries d'). fd e \<le> 0 \<or> 3 \<le> fd e)
            \<and> (\<forall>r \<in> set rs. r = (- 1, []) \<or> 3 \<le> fst r)"
  proof
    assume "cache_run cs (d, os) = Inr (rs, d', os')"
    from cache_run_keeps_inv [OF assms this]
    show "cache_inv d' \<and> fds012_open os'
            \<and> (\<forall>e \<in> set (entries d'). fd e \<le> 0 \<or> 3 \<le> fd e)
            \<and> (\<forall>r \<in> set rs. r = (- 1, []) \<or> 3 \<le> fst r)"
      by (auto simp: cache_inv_def)
  qed
  from assms(1) have "nextIndex d < length (entries d)"
    by (simp add: cache_inv_def)
  from Store_panics_iff [OF this]
  have store: "(\<exists>x. Store d p fd0 iv0 os = Inl x) = (fd0 \<le> 0 \<or> length iv0 \<noteq> DirIVLen)" .
  from Lookup_keeps_inv [OF assms, of p] have "\<forall>x. Lookup d p os \<noteq> Inl x"
    by auto
  with run store show ?thesis by simp
qed


theorem dirCache_descriptors_above_2_witness:
  "cache_inv dirCache_zero
   \<and> fds012_open (demo_os [Some 0, Some 0, Some 0, Some 7, None, None, None])
   \<and> cache_run [OpStore ''a'' 3 (demo_iv 1), OpLookup ''a'', OpLookup ''b'', OpClear,
                 OpLookup ''a'']
        (dirCache_zero, demo_os [Some 0, Some 0, Some 0, Some 7, None, None, None]) =
       Inr ([(5, demo_iv 1), (- 1, []), (- 1, [])],
            \<lparr>entries = [dirCacheEntry_empty, dirCacheEntry_empty, dirCacheEntry_empty],
              nextIndex = 1, expireThreadRunning = True, lookups = 0, hits = 0\<rparr>,
            \<lparr>fdtab = [Some 0, Some 0, Some 0, Some 7, None, Some 7, None], closes = [4]\<rparr>)
   \<and> fds012_open \<lparr>fdtab = [Some 0, Some 0, Some 0, Some 7, None, Some 7, None], closes = [4]\<rparr>
   \<and> Store dirCache_zero ''a'' 0 (demo_iv 1)
         (demo_os [Some 0, Some 0, Some 0, Some 7, None, None, None]) =
       Inl (StoreSanityCheckFailed 0 16)"
proof -
  have inv: "cache_inv dirCache_zero"
    by (simp add: cache_inv_def dirCache_zero_def dirCacheEntry_zero_def dirCacheSize_def)
  have os: "fds012_open (demo_os [Some 0, Some 0, Some 0, Some 7, None, None, None])"
    by (simp add: fds012_open_def fd_open_def demo_os_def)
  have run: "cache_run [OpStore ''a'' 3 (demo_iv 1), OpLookup ''a'', OpLookup ''b'', OpClear,
                 OpLookup ''a'']
        (dirCache_zero, demo_os [Some 0, Some 0, Some 0, Some 7, None, None, None]) =
       Inr ([(5, demo_iv 1), (- 1, []), (- 1, [])],
            \<lparr>entries = [dirCacheEntry_empty, dirCacheEntry_empty, dirCacheEntry_empty],
              nextIndex = 1, expireThreadRunning = True, lookups = 0, hits = 0\<rparr>,
            \<lparr>fdtab = [Some 0, Some 0, Some 0, Some 7, None, Some 7, None], closes = [4]\<rparr>)"
    by (simp add: cache_eval)
  have st: "Store dirCache_zero ''a'' 0 (demo_iv 1)
         (demo_os [Some 0, Some 0, Some 0, Some 7, None, None, None]) =
       Inl (StoreSanityCheckFailed 0 16)"
    by (simp add: cache_eval)
  from dirCache_descriptors_above_2 [OF inv os, of _ _ _ _ "''a''" 0 "demo_iv 1"] run
  have "fds012_open \<lparr>fdtab = [Some 0, Some 0, Some 0, Some 7, None, Some 7, None], closes = [4]\<rparr>"
    by blast
  with inv os run st show ?thesis by simp
qed

text \<open>
  The claim as first stated fails for the descriptors 1 and 2: \<^verbatim>\<open>Store\<close> checks
  \<open>fd \<le> 0\<close> only. Called with descriptor 1 it returns normally, with a duplicate of
  descriptor 1 in slot 0.
\<close>

theorem Store_accepts_fd_1_counterexample:
  "Store dirCache_zero ''a'' 1 (demo_iv 1) (demo_os [Some 0, Some 0, Some 0, None]) =
     Inr (\<lparr>entries = [\<lparr>dirRelPath = ''a'', fd = 3, iv = demo_iv 1\<rparr>,
                      dirCacheEntry_zero, dirCacheEntry_zero],
            nextIndex = 1, expireThreadRunning = True, lookups = 0, hits = 0\<rparr>,
          \<lparr>fdtab = [Some 0, Some 0, Some 0, Some 0], closes = []\<rparr>)"
  by (simp add: cache_eval)

section \<open>Lemmas about the descriptors that the cache owns\<close>

lemma distinct_filter_nth:
  assumes "distinct (filter P (map f es))" and "j < length es" and "k < length es"
    and "j \<noteq> k" and "P (f (es ! j))"
  shows "f (es ! j) \<noteq> f (es ! k)"
  using assms
proof (induction es arbitrary: j k)
  case Nil
  then show ?case by simp
next
  case (Cons e es)
  from Cons.prems(1) have tl: "distinct (filter P (map f es))"
    by (simp split: if_splits)
  show ?case
  proof (cases j)
    case 0
    with Cons.prems obtain k' where k: "k = Suc k'" "k' < length es"
      by (cases k) auto
    from 0 Cons.prems(5) have "P (f e)" by simp
    with Cons.prems(1) have "f e \<notin> set (filter P (map f es))" by simp
    with \<open>P (f e)\<close> k(2) have "f (es ! k') \<noteq> f e"
      by (auto simp: image_iff) (metis nth_mem)
    with 0 k show ?thesis by simp
  next
    case (Suc j')
    show ?thesis
    proof (cases k)
      case 0
      from Suc Cons.prems have j': "j' < length es" "P (f (es ! j'))" by simp_all
      show ?thesis
      proof
        assume eq: "f ((e # es) ! j) = f ((e # es) ! k)"
        with Suc 0 have "f (es ! j') = f e" by simp
        with j' have "P (f e)" "f e \<in> set (filter P (map f es))"
          by (auto simp: image_iff) (metis nth_mem)
        with Cons.prems(1) show False by simp
      qed
    next
      case (Suc k')
      with \<open>j = Suc j'\<close> Cons.prems Cons.IH [OF tl, of j' k'] show ?thesis by simp
    qed
  qed
qed

lemma distinct_filter_update:
  assumes "distinct (filter P xs)"
    and "\<forall>j < length xs. j \<noteq> k \<longrightarrow> P y \<longrightarrow> xs ! j \<noteq> y"
  shows "distinct (filter P (xs[k := y]))"
  using assms
proof (induction xs arbitrary: k)
  case Nil
  then show ?case by simp
next
  case (Cons x xs)
  from Cons.prems(1) have tl: "distinct (filter P xs)"
    by (simp split: if_splits)
  show ?case
  proof (cases k)
    case 0
    have "y \<notin> set xs" if "P y"
    proof
      assume "y \<in> set xs"
      then obtain j where "j < length xs" "xs ! j = y"
        by (auto simp: in_set_conv_nth)
      with Cons.prems(2) [rule_format, of "Suc j"] 0 that show False by simp
    qed
    with 0 tl show ?thesis by auto
  next
    case (Suc k')
    have c: "\<forall>j < length xs. j \<noteq> k' \<longrightarrow> P y \<longrightarrow> xs ! j \<noteq> y"
    proof (intro allI impI)
      fix j
      assume "j < length xs" "j \<noteq> k'" "P y"
      with Cons.prems(2) [rule_format, of "Suc j"] Suc show "xs ! j \<noteq> y" by simp
    qed
    from Cons.IH [OF tl c] have ih: "distinct (filter P (xs[k' := y]))" .
    have sub: "set (filter P (xs[k' := y])) \<subseteq> (if P y then {y} else {}) \<union> set (filter P xs)"
      using set_update_subset_insert [of xs k' y] by auto
    show ?thesis
    proof (cases "P x")
      case True
      with Cons.prems(1) have x: "x \<notin> set (filter P xs)" by simp
      from Cons.prems(2) [rule_format, of 0] Suc have "P y \<longrightarrow> x \<noteq> y" by simp
      with sub x have "x \<notin> set (filter P (xs[k' := y]))" by (auto split: if_splits)
      with True ih Suc show ?thesis by simp
    next
      case False
      with ih Suc show ?thesis by simp
    qed
  qed
qed

lemma in_set_update:
  assumes "x \<in> set (xs[i := y])"
  shows "x = y \<or> (\<exists>j < length xs. j \<noteq> i \<and> x = xs ! j)"
proof -
  from assms obtain j where j: "j < length xs" "x = xs[i := y] ! j"
    by (auto simp: in_set_conv_nth)
  then show ?thesis
    by (cases "j = i") auto
qed

lemma cache_owns_zero: "cache_owns dirCache_zero os"
  by (simp add: cache_owns_def dirCache_zero_def dirCacheEntry_zero_def)

text \<open>Closing a descriptor opens none.\<close>

lemma entry_Clear_was_open:
  assumes "dirCacheEntryStruct_Clear e os = (e', os')" and "fd_open os' k"
  shows "fd_open os k"
proof -
  from entry_Clear_cases [OF assms(1)]
  consider "fdtab os' = fdtab os" | "fdtab os' = (fdtab os)[nat (fd e) := None]"
    by auto
  then show ?thesis
  proof cases
    case 1
    with assms(2) show ?thesis by (simp add: fd_open_def)
  next
    case 2
    with assms(2) show ?thesis
      by (cases "nat k = nat (fd e)") (auto simp: fd_open_def)
  qed
qed

text \<open>What a \<^verbatim>\<open>Store\<close> that passes the sanity check does to the cache and the table.\<close>

lemma Store_step:
  assumes inv: "cache_inv d" and os: "fds012_open os" and own: "cache_owns d os"
    and ok: "0 < fd0" "length iv0 = DirIVLen"
  shows "\<exists>d' os' E. Store d p fd0 iv0 os = Inr (d', os')
           \<and> cache_inv d' \<and> fds012_open os' \<and> cache_owns d' os'
           \<and> nextIndex d' = (nextIndex d + 1) mod dirCacheSize
           \<and> entries d' = (entries d)[nextIndex d := E]
           \<and> (E = dirCacheEntry_empty
               \<or> (dirRelPath E = p \<and> iv E = iv0 \<and> 0 < fd E
                   \<and> fd_inode os' (fd E) = fd_inode os fd0))
           \<and> (fd_open os fd0 \<and> fd (entries d ! nextIndex d) \<noteq> fd0 \<and> 0 < free_fds os
                \<longrightarrow> E \<noteq> dirCacheEntry_empty)
           \<and> (\<forall>k. fd_open os k \<and> k \<noteq> fd (entries d ! nextIndex d)
                \<longrightarrow> fd_open os' k \<and> fd_inode os' k = fd_inode os k)
           \<and> free_fds os \<le> Suc (free_fds os')"
proof -
  let ?i = "nextIndex d"
  let ?old = "entries d ! ?i"
  from inv have idx: "?i < length (entries d)"
    by (simp add: cache_inv_def)
  obtain e1 osc where c: "dirCacheEntryStruct_Clear ?old os = (e1, osc)"
    by (cases "dirCacheEntryStruct_Clear ?old os")
  obtain fd2 err os2 where dup: "sys_Dup fd0 osc = ((fd2, err), os2)"
    by (cases "sys_Dup fd0 osc") auto
  define E where "E = (if err \<noteq> None then dirCacheEntry_empty
                       else \<lparr>dirRelPath = p, fd = fd2, iv = iv0\<rparr>)"
  define d' where "d' = (if err \<noteq> None
      then d\<lparr>nextIndex := (nextIndex d + 1) mod dirCacheSize,
             entries := (entries d)[?i := dirCacheEntry_empty]\<rparr>
      else d\<lparr>nextIndex := (nextIndex d + 1) mod dirCacheSize,
             entries := (entries d)[?i := \<lparr>dirRelPath = p, fd = fd2, iv = iv0\<rparr>],
             expireThreadRunning := True\<rparr>)"
  from Store_unfold [OF ok idx c dup, of p]
  have st: "Store d p fd0 iv0 os = Inr (d', os2)"
    by (simp add: d'_def)
  from Store_keeps_inv [OF inv os st] have inv': "cache_inv d'" "fds012_open os2"
    by simp_all
  have nx: "nextIndex d' = (nextIndex d + 1) mod dirCacheSize"
    and en: "entries d' = (entries d)[?i := E]"
    by (simp_all add: d'_def E_def)
  have keepc: "fd_open osc k \<and> fd_inode osc k = fd_inode os k"
    if "fd_open os k" "k \<noteq> fd ?old" for k
    using that entry_Clear_keeps_open [OF c that(1)] by simp
  have keep: "fd_open os2 k \<and> fd_inode os2 k = fd_inode os k"
    if "fd_open os k" "k \<noteq> fd ?old" for k
    using keepc [OF that] sys_Dup_keeps_open [OF dup, of k] by simp
  from inv idx have slot: "fd ?old \<le> 0 \<or> 3 \<le> fd ?old"
    by (auto simp: cache_inv_def dest: nth_mem)
  from entry_Clear_keeps_012 [OF c os slot] have zero: "fd_open osc 0"
    by (simp add: fds012_open_def)
  have fresh: "0 < fd2 \<and> \<not> fd_open osc fd2 \<and> fd_open os2 fd2
               \<and> fd_inode os2 fd2 = fd_inode os fd0"
    if "err = None"
  proof -
    from that dup sys_Dup_ok [of fd0 osc fd2 os2]
    have a: "0 \<le> fd2" "\<not> fd_open osc fd2" "fd_open os2 fd2"
      "fd_inode os2 fd2 = fd_inode osc fd0" "fd_open osc fd0"
      by simp_all
    from a(2) zero have "fd2 \<noteq> 0" by auto
    from entry_Clear_was_open [OF c a(5)] have o0: "fd_open os fd0" .
    have ne: "fd0 \<noteq> fd ?old"
    proof
      assume "fd0 = fd ?old"
      with ok(1) o0 c have "fdtab osc = (fdtab os)[nat fd0 := None]"
        by (auto simp: dirCacheEntryStruct_Clear_def sys_Close_def Let_def)
      with o0 have "\<not> fd_open osc fd0"
        by (simp add: fd_open_def)
      with a(5) show False by simp
    qed
    from keepc [OF o0 ne] a \<open>fd2 \<noteq> 0\<close> show ?thesis by simp
  qed
  have Ecases: "E = dirCacheEntry_empty
      \<or> (dirRelPath E = p \<and> iv E = iv0 \<and> 0 < fd E \<and> fd_inode os2 (fd E) = fd_inode os fd0)"
    using fresh by (cases err) (simp_all add: E_def)
  have stored: "E \<noteq> dirCacheEntry_empty"
    if "fd_open os fd0 \<and> fd ?old \<noteq> fd0 \<and> 0 < free_fds os"
  proof -
    from that keepc [of fd0] have "fd_open osc fd0" by auto
    moreover from that entry_Clear_free [OF c] have "0 < free_fds osc" by simp
    ultimately obtain n' os' where "sys_Dup fd0 osc = ((n', None), os')"
      using sys_Dup_succeeds by blast
    with dup have "err = None" by simp
    with fresh show ?thesis
      by (auto simp: E_def dirCacheEntry_empty_def)
  qed
  have free: "free_fds os \<le> Suc (free_fds os2)"
  proof (cases err)
    case None
    with dup sys_Dup_ok [of fd0 osc fd2 os2]
    have "fdtab os2 = (fdtab osc)[nat fd2 := fdtab osc ! nat fd0]" by simp
    then have "free_fds osc \<le> Suc (free_fds os2)"
      unfolding free_fds_def by (simp add: free_after_update)
    with entry_Clear_free [OF c] show ?thesis by simp
  next
    case (Some x)
    with dup sys_Dup_err [of fd0 osc fd2 x os2] have "os2 = osc" by simp
    with entry_Clear_free [OF c] show ?thesis by simp
  qed
  have others: "fd_open os (fd (entries d ! j)) \<and> fd (entries d ! j) \<noteq> fd ?old"
    if "j < length (entries d)" "j \<noteq> ?i" "0 < fd (entries d ! j)" for j
  proof -
    from own that(1,3) have "fd_open os (fd (entries d ! j))"
      by (auto simp: cache_owns_def dest: nth_mem)
    moreover from own have "distinct (filter (\<lambda>n. 0 < n) (map fd (entries d)))"
      by (simp add: cache_owns_def)
    from distinct_filter_nth [OF this that(1) idx that(2,3)]
    have "fd (entries d ! j) \<noteq> fd ?old" .
    ultimately show ?thesis by simp
  qed
  have own': "cache_owns d' os2"
    unfolding cache_owns_def
  proof (intro conjI ballI impI)
    fix e
    assume e: "e \<in> set (entries d')" "0 < fd e"
    from in_set_update [OF e(1) [unfolded en]]
    consider "e = E" | j where "j < length (entries d)" "j \<noteq> ?i" "e = entries d ! j"
      by auto
    then show "fd_open os2 (fd e)"
    proof cases
      case 1
      with e(2) fresh show ?thesis
        by (cases err) (auto simp: E_def dirCacheEntry_empty_def)
    next
      case 2
      from others [OF 2(1,2)] e(2) 2(3) keep show ?thesis by simp
    qed
  next
    have "distinct (filter (\<lambda>n. 0 < n) ((map fd (entries d))[?i := fd E]))"
    proof (rule distinct_filter_update)
      from own show "distinct (filter (\<lambda>n. 0 < n) (map fd (entries d)))"
        by (simp add: cache_owns_def)
      show "\<forall>j < length (map fd (entries d)). j \<noteq> ?i \<longrightarrow> 0 < fd E
              \<longrightarrow> map fd (entries d) ! j \<noteq> fd E"
      proof (intro allI impI)
        fix j
        assume j: "j < length (map fd (entries d))" "j \<noteq> ?i" "0 < fd E"
        show "map fd (entries d) ! j \<noteq> fd E"
        proof (cases "0 < fd (entries d ! j)")
          case True
          from j(1) have jl: "j < length (entries d)" by simp
          from others [OF jl j(2) True] keepc
          have "fd_open osc (fd (entries d ! j))" by simp
          moreover from j(3) fresh have "\<not> fd_open osc (fd E)"
            by (cases err) (auto simp: E_def dirCacheEntry_empty_def)
          ultimately show ?thesis using jl by auto
        next
          case False
          with j show ?thesis by auto
        qed
      qed
    qed
    then show "distinct (filter (\<lambda>n. 0 < n) (map fd (entries d')))"
      by (simp add: en map_update)
  qed
  from st inv' own' nx en Ecases stored keep free show ?thesis
    by blast
qed

subsection \<open>The round-robin index\<close>

lemma slot_cases: "(i::nat) < 3 \<Longrightarrow> i = 0 \<or> i = 1 \<or> i = 2"
  by arith

lemma slot_not_next:
  assumes "(i::nat) < 3" and "Suc k \<le> (i + 3 - n) mod 3"
  shows "n \<noteq> i"
  using assms by auto

lemma slot_after_Store:
  assumes "(i::nat) < 3" and "n < 3" and "Suc k \<le> (i + 3 - n) mod 3"
  shows "k \<le> (i + 3 - (n + 1) mod 3) mod 3"
proof -
  from slot_cases [OF assms(1)] slot_cases [OF assms(2)] assms(3) show ?thesis
    by (elim disjE) simp_all
qed

lemma slot_just_stored:
  assumes "(i::nat) < 3"
  shows "(i + 3 - (i + 1) mod 3) mod 3 = 2"
  using slot_cases [OF assms] by (elim disjE) simp_all

subsection \<open>Each call keeps the descriptors of the cache\<close>

text \<open>A \<^verbatim>\<open>Lookup\<close> leaves the cache as it is and closes nothing.\<close>

lemma Lookup_step:
  assumes inv: "cache_inv d" and os: "fds012_open os" and own: "cache_owns d os"
  shows "\<exists>r os'. Lookup d p os = Inr (r, d, os')
           \<and> fds012_open os' \<and> cache_owns d os'
           \<and> (\<forall>k. fd_open os k \<longrightarrow> fd_open os' k \<and> fd_inode os' k = fd_inode os k)
           \<and> free_fds os \<le> Suc (free_fds os')"
proof -
  from Lookup_keeps_inv [OF inv os, of p]
  obtain r os' where lk: "Lookup d p os = Inr (r, d, os')" and os': "fds012_open os'"
    by blast
  have step: "(os' = os \<or> (\<exists>n n'. sys_Dup n os = ((n', None), os')))"
  proof (cases "Lookup_loop (entries d) p os")
    case (Inl os1)
    from Lookup_loop_Inl [OF Inl] Inl lk show ?thesis
      by (simp add: Lookup_def enableStats_def)
  next
    case (Inr t)
    obtain n v os1 where t: "t = (n, v, os1)" by (cases t)
    from Inr t lk have "os1 = os'"
      by (auto simp: Lookup_def enableStats_def Let_def split: if_splits)
    with Lookup_loop_Inr [OF Inr [unfolded t]] show ?thesis
      by auto
  qed
  have keep: "\<forall>k. fd_open os k \<longrightarrow> fd_open os' k \<and> fd_inode os' k = fd_inode os k"
    using step sys_Dup_keeps_open by blast
  have free: "free_fds os \<le> Suc (free_fds os')"
    using step
  proof
    assume "os' = os"
    then show ?thesis by simp
  next
    assume "\<exists>n n'. sys_Dup n os = ((n', None), os')"
    then obtain n n' where "sys_Dup n os = ((n', None), os')" by blast
    from sys_Dup_ok [OF this] have "fdtab os' = (fdtab os)[nat n' := fdtab os ! nat n]"
      by simp
    then show ?thesis
      unfolding free_fds_def by (simp add: free_after_update)
  qed
  from own keep have "cache_owns d os'"
    by (auto simp: cache_owns_def)
  with lk os' keep free show ?thesis by blast
qed

text \<open>A \<^verbatim>\<open>Clear\<close> leaves no descriptor in the cache.\<close>

lemma Clear_owns:
  assumes "dirCacheStruct_Clear d os = (d', os')"
  shows "cache_owns d' os'"
proof -
  obtain es1 os1 where c: "Clear_entries (entries d) os = (es1, os1)"
    by (cases "Clear_entries (entries d) os")
  from Clear_entries_fst [of "entries d" os] c
  have "es1 = replicate (length (entries d)) dirCacheEntry_empty" by simp
  moreover have "filter (\<lambda>n. 0 < n) (map fd (replicate k dirCacheEntry_empty)) = []" for k
    by (induction k) (simp_all add: dirCacheEntry_empty_def)
  ultimately show ?thesis
    using assms c by (auto simp: dirCacheStruct_Clear_def cache_owns_def dirCacheEntry_empty_def)
qed

lemma cache_step_keeps_owns:
  assumes "cache_inv d" and "fds012_open os" and "cache_owns d os"
    and "cache_step c (d, os) = Inr (rs, d', os')"
  shows "cache_owns d' os'"
proof (cases c)
  case (OpStore p fd0 iv0)
  with assms(4) have st: "Store d p fd0 iv0 os = Inr (d', os')"
    by (auto split: sum.splits)
  from assms(1) have "nextIndex d < length (entries d)"
    by (simp add: cache_inv_def)
  from Store_panics_iff [OF this, of p fd0 iv0 os] st
  have "0 < fd0" "length iv0 = DirIVLen" by auto
  from Store_step [OF assms(1-3) this, of p] st show ?thesis by auto
next
  case (OpLookup p)
  from Lookup_step [OF assms(1-3), of p] OpLookup assms(4) show ?thesis
    by auto
next
  case OpClear
  with assms(4) have "dirCacheStruct_Clear d os = (d', os')"
    by (auto split: prod.splits)
  then show ?thesis by (rule Clear_owns)
qed

lemma cache_run_keeps_owns:
  assumes "cache_inv d" and "fds012_open os" and "cache_owns d os"
    and "cache_run cs (d, os) = Inr (rs, d', os')"
  shows "cache_owns d' os'"
  using assms
proof (induction cs arbitrary: d os rs)
  case Nil
  then show ?case by simp
next
  case (Cons c cs)
  from Cons.prems(4) obtain rs1 d1 os1 rs2 where
    step: "cache_step c (d, os) = Inr (rs1, d1, os1)"
    and rest: "cache_run cs (d1, os1) = Inr (rs2, d', os')"
    by (auto split: sum.splits)
  from cache_step_keeps_inv [OF Cons.prems(1,2) step]
  have 1: "cache_inv d1" "fds012_open os1" by simp_all
  from cache_step_keeps_owns [OF Cons.prems(1-3) step] have 2: "cache_owns d1 os1" .
  from Cons.IH [OF 1 2 rest] show ?case .
qed

text \<open>A hit: the first slot that holds the path, and a \<^verbatim>\<open>Dup\<close> that succeeds.\<close>

lemma Lookup_hit:
  assumes idx: "i < length (entries d)"
    and first: "\<forall>j < i. \<not> (0 < fd (entries d ! j) \<and> dirRelPath (entries d ! j) = p)"
    and slot: "dirRelPath (entries d ! i) = p" "0 < fd (entries d ! i)"
      "length (iv (entries d ! i)) = DirIVLen"
    and inode: "fd_inode os (fd (entries d ! i)) = Some inode"
    and zero: "fd_open os 0"
    and room: "0 < free_fds os"
  shows "\<exists>fd' os2. Lookup d p os = Inr ((fd', iv (entries d ! i)), d, os2)
           \<and> 0 < fd' \<and> \<not> fd_open os fd' \<and> fd_inode os2 fd' = Some inode"
proof -
  from inode have op: "fd_open os (fd (entries d ! i))"
    by (auto simp: fd_inode_def split: if_splits)
  from sys_Dup_succeeds [OF op room]
  obtain fd' os2 where dup: "sys_Dup (fd (entries d ! i)) os = ((fd', None), os2)" by auto
  from sys_Dup_ok [OF dup] inode
  have d2: "0 \<le> fd'" "\<not> fd_open os fd'" "fd_inode os2 fd' = Some inode"
    by simp_all
  from d2(2) zero have "fd' \<noteq> 0" by auto
  with d2(1) have fd': "0 < fd'" by simp
  from Lookup_loop_first [OF idx first slot(2,1) dup]
  have "Lookup_loop (entries d) p os = Inr (fd', iv (entries d ! i), os2)" .
  with fd' slot(3) have "Lookup d p os = Inr ((fd', iv (entries d ! i)), d, os2)"
    by (simp add: Lookup_def enableStats_def)
  with fd' d2 show ?thesis by blast
qed

text \<open>A miss after a \<^verbatim>\<open>Dup\<close> that fails.\<close>

lemma Lookup_loop_first_fails:
  assumes "i < length es"
    and "\<forall>j < i. \<not> (0 < fd (es ! j) \<and> dirRelPath (es ! j) = p)"
    and "0 < fd (es ! i)" and "dirRelPath (es ! i) = p"
    and "sys_Dup (fd (es ! i)) os = ((n, Some e), os1)"
  shows "Lookup_loop es p os = Inl os1"
  using assms
proof (induction es arbitrary: i)
  case Nil
  then show ?case by simp
next
  case (Cons x xs)
  show ?case
  proof (cases i)
    case 0
    with Cons.prems show ?thesis by simp
  next
    case (Suc k)
    with Cons.prems(2) have skip: "\<not> (0 < fd x \<and> dirRelPath x = p)" by auto
    from Suc Cons.prems(2) have "\<forall>j < k. \<not> (0 < fd (xs ! j) \<and> dirRelPath (xs ! j) = p)" by auto
    with Cons.IH [of k] Cons.prems Suc have "Lookup_loop xs p os = Inl os1"
      by simp
    with skip Suc show ?thesis by auto
  qed
qed

text \<open>
  The calls between the \<^verbatim>\<open>Store\<close> and the \<^verbatim>\<open>Lookup\<close>: slot \<open>i\<close> keeps its entry and the
  descriptor of the entry stays open on its inode, as long as no more \<^verbatim>\<open>Store\<close> calls
  come than there are slots between the round-robin index and slot \<open>i\<close>.
\<close>

lemma intervening_keeps_entry:
  assumes "cache_inv d" and "fds012_open os" and "cache_owns d os"
    and "i < dirCacheSize" and "entries d ! i = E" and "0 < fd E"
    and "fd_inode os (fd E) = Some inode"
    and "list_all intervening ops"
    and "length (filter is_Store ops) \<le> (i + dirCacheSize - nextIndex d) mod dirCacheSize"
    and "length ops < free_fds os"
  shows "\<exists>rs d1 os1. cache_run ops (d, os) = Inr (rs, d1, os1)
           \<and> cache_inv d1 \<and> fds012_open os1 \<and> cache_owns d1 os1
           \<and> entries d1 ! i = E \<and> fd_inode os1 (fd E) = Some inode \<and> 0 < free_fds os1"
  using assms
proof (induction ops arbitrary: d os)
  case Nil
  then show ?case by simp
next
  case (Cons c ops)
  from Cons.prems(1) have len: "length (entries d) = dirCacheSize" and nx: "nextIndex d < dirCacheSize"
    by (simp_all add: cache_inv_def)
  from Cons.prems(7) have open_E: "fd_open os (fd E)"
    by (auto simp: fd_inode_def split: if_splits)
  have step: "\<exists>rs1 d1 os1. cache_step c (d, os) = Inr (rs1, d1, os1)
      \<and> cache_inv d1 \<and> fds012_open os1 \<and> cache_owns d1 os1
      \<and> entries d1 ! i = E \<and> fd_inode os1 (fd E) = Some inode
      \<and> free_fds os \<le> Suc (free_fds os1)
      \<and> length (filter is_Store ops) \<le> (i + dirCacheSize - nextIndex d1) mod dirCacheSize"
  proof (cases c)
    case (OpStore q fdq ivq)
    with Cons.prems(8) have ok: "0 < fdq" "length ivq = DirIVLen" by simp_all
    from OpStore Cons.prems(9)
    have cnt: "Suc (length (filter is_Store ops)) \<le> (i + dirCacheSize - nextIndex d) mod dirCacheSize"
      by simp
    from Cons.prems(4) cnt have ne: "nextIndex d \<noteq> i"
      unfolding dirCacheSize_def by (rule slot_not_next)
    from Store_step [OF Cons.prems(1-3) ok, of q]
    obtain d1 os1 E1 where s: "Store d q fdq ivq os = Inr (d1, os1)"
      "cache_inv d1" "fds012_open os1" "cache_owns d1 os1"
      "nextIndex d1 = (nextIndex d + 1) mod dirCacheSize"
      "entries d1 = (entries d)[nextIndex d := E1]"
      "\<forall>k. fd_open os k \<and> k \<noteq> fd (entries d ! nextIndex d)
          \<longrightarrow> fd_open os1 k \<and> fd_inode os1 k = fd_inode os k"
      "free_fds os \<le> Suc (free_fds os1)"
      by blast
    from s(6) ne Cons.prems(5) have e: "entries d1 ! i = E" by simp
    from Cons.prems(3) have "distinct (filter (\<lambda>n. 0 < n) (map fd (entries d)))"
      by (simp add: cache_owns_def)
    from distinct_filter_nth [OF this, of i "nextIndex d"] Cons.prems(4,5,6) len nx ne
    have "fd E \<noteq> fd (entries d ! nextIndex d)" by simp
    with s(7) open_E Cons.prems(7) have ino: "fd_inode os1 (fd E) = Some inode" by simp
    from Cons.prems(4) nx cnt
    have "length (filter is_Store ops) \<le> (i + 3 - (nextIndex d + 1) mod 3) mod 3"
      unfolding dirCacheSize_def by (rule slot_after_Store)
    then have "length (filter is_Store ops) \<le> (i + dirCacheSize - nextIndex d1) mod dirCacheSize"
      by (simp add: s(5) dirCacheSize_def)
    with OpStore s e ino show ?thesis by simp
  next
    case (OpLookup q)
    from Lookup_step [OF Cons.prems(1-3), of q]
    obtain r os1 where l: "Lookup d q os = Inr (r, d, os1)" "fds012_open os1" "cache_owns d os1"
      "\<forall>k. fd_open os k \<longrightarrow> fd_open os1 k \<and> fd_inode os1 k = fd_inode os k"
      "free_fds os \<le> Suc (free_fds os1)"
      by blast
    from l(4) open_E Cons.prems(7) have "fd_inode os1 (fd E) = Some inode" by simp
    with OpLookup l Cons.prems(1,5,9) show ?thesis by simp
  next
    case OpClear
    with Cons.prems(8) show ?thesis by simp
  qed
  then obtain rs1 d1 os1 where s: "cache_step c (d, os) = Inr (rs1, d1, os1)"
    "cache_inv d1" "fds012_open os1" "cache_owns d1 os1"
    "entries d1 ! i = E" "fd_inode os1 (fd E) = Some inode"
    "free_fds os \<le> Suc (free_fds os1)"
    "length (filter is_Store ops) \<le> (i + dirCacheSize - nextIndex d1) mod dirCacheSize"
    by blast
  from Cons.prems(8) have a: "list_all intervening ops" by simp
  from Cons.prems(10) s(7) have b: "length ops < free_fds os1" by simp
  from Cons.IH [OF s(2-4) Cons.prems(4) s(5) Cons.prems(6) s(6) a s(8) b]
  obtain rs2 d2 os2 where r: "cache_run ops (d1, os1) = Inr (rs2, d2, os2)"
    "cache_inv d2" "fds012_open os2" "cache_owns d2 os2"
    "entries d2 ! i = E" "fd_inode os2 (fd E) = Some inode" "0 < free_fds os2"
    by blast
  from s(1) r(1) have "cache_run (c # ops) (d, os) = Inr (rs1 @ rs2, d2, os2)"
    by simp
  with r show ?case by blast
qed

section \<open>Claim C4: a Lookup after a Store\<close>

text \<open>
  C4 (as amended). Let the cache be in the shape \<open>cache_inv\<close>, with descriptors 0, 1 and
  2 open and the descriptors of the slots its own (\<open>cache_owns\<close>), as it is after every
  sequence of \<^verbatim>\<open>Store\<close>, \<^verbatim>\<open>Lookup\<close> and \<^verbatim>\<open>Clear\<close> calls on the zero value. Let \<open>fd0\<close> be a
  positive descriptor open on inode \<open>inode\<close> and not the one held by the slot that
  \<^verbatim>\<open>Store\<close> is about to evict, and let the IV be 16 bytes long. Let \<open>ops\<close> be the calls
  that follow \<^verbatim>\<open>Store(p, fd0, iv0)\<close>: any \<^verbatim>\<open>Lookup\<close> calls and fewer than \<open>dirCacheSize\<close>
  \<^verbatim>\<open>Store\<close> calls that pass the sanity check, so that the entry is not evicted, and no
  \<^verbatim>\<open>Clear\<close>. Let the descriptor table have room for one more descriptor per call, so
  that no \<^verbatim>\<open>Dup\<close> fails for want of a descriptor. Then all these calls return. The
  entry is in the slot at which the round-robin index stood before the \<^verbatim>\<open>Store\<close>; unless
  a slot with a lower index holds path \<open>p\<close> with a descriptor at that time (\<^verbatim>\<open>Lookup\<close>
  returns the first slot that matches), a \<^verbatim>\<open>Lookup(p)\<close> after these calls returns
  \<open>(fd', iv0)\<close>, where \<open>fd'\<close> is positive, was unused before the \<^verbatim>\<open>Lookup\<close>, and is open
  on \<open>inode\<close> after it.

  A \<^verbatim>\<open>Lookup\<close> of a path that no slot with a descriptor holds returns the miss
  \<open>(-1, nil)\<close> and changes nothing. When the \<^verbatim>\<open>Dup\<close> in \<^verbatim>\<open>Store\<close> fails, \<^verbatim>\<open>Store\<close> returns
  with the slot left empty: nothing is stored. When the \<^verbatim>\<open>Dup\<close> in \<^verbatim>\<open>Lookup\<close> fails,
  \<^verbatim>\<open>Lookup\<close> returns the miss \<open>(-1, nil)\<close>.
\<close>

theorem Lookup_after_Store:
  "(cache_inv d \<and> fds012_open os \<and> cache_owns d os
      \<and> 0 < fd0 \<and> fd_inode os fd0 = Some inode \<and> length iv0 = DirIVLen
      \<and> fd (entries d ! nextIndex d) \<noteq> fd0
      \<and> list_all intervening ops \<and> length (filter is_Store ops) < dirCacheSize
      \<and> length ops + 2 \<le> free_fds os
    \<longrightarrow> (\<exists>rs d1 os1.
           cache_run (OpStore p fd0 iv0 # ops) (d, os) = Inr (rs, d1, os1)
           \<and> ((\<forall>j < nextIndex d. \<not> (0 < fd (entries d1 ! j) \<and> dirRelPath (entries d1 ! j) = p))
                \<longrightarrow> (\<exists>fd' os2. Lookup d1 p os1 = Inr ((fd', iv0), d1, os2)
                        \<and> 0 < fd' \<and> \<not> fd_open os1 fd' \<and> fd_inode os2 fd' = Some inode))))
   \<and> ((\<forall>e \<in> set (entries d). 0 < fd e \<longrightarrow> dirRelPath e \<noteq> q)
        \<longrightarrow> Lookup d q os = Inr ((- 1, []), d, os))
   \<and> (0 < fd0 \<and> length iv0 = DirIVLen \<and> nextIndex d < length (entries d)
        \<and> dirCacheEntryStruct_Clear (entries d ! nextIndex d) os = (e1, osc)
        \<and> sys_Dup fd0 osc = ((x, Some err), osd)
        \<longrightarrow> Store d p fd0 iv0 os =
              Inr (d\<lparr>nextIndex := (nextIndex d + 1) mod dirCacheSize,
                     entries := (entries d)[nextIndex d := dirCacheEntry_empty]\<rparr>, osc))
   \<and> (k < length (entries d)
        \<and> (\<forall>j < k. \<not> (0 < fd (entries d ! j) \<and> dirRelPath (entries d ! j) = q))
        \<and> 0 < fd (entries d ! k) \<and> dirRelPath (entries d ! k) = q
        \<and> sys_Dup (fd (entries d ! k)) os = ((y, Some err'), osl)
        \<longrightarrow> Lookup d q os = Inr ((- 1, []), d, os))"
proof (intro conjI impI)
  assume a: "cache_inv d \<and> fds012_open os \<and> cache_owns d os
      \<and> 0 < fd0 \<and> fd_inode os fd0 = Some inode \<and> length iv0 = DirIVLen
      \<and> fd (entries d ! nextIndex d) \<noteq> fd0
      \<and> list_all intervening ops \<and> length (filter is_Store ops) < dirCacheSize
      \<and> length ops + 2 \<le> free_fds os"
  then have inv: "cache_inv d" and os: "fds012_open os" and own: "cache_owns d os"
    and fd0: "0 < fd0" "fd_inode os fd0 = Some inode" and iv0: "length iv0 = DirIVLen"
    and notown: "fd (entries d ! nextIndex d) \<noteq> fd0"
    and ops: "list_all intervening ops" "length (filter is_Store ops) < dirCacheSize"
    and room: "length ops + 2 \<le> free_fds os"
    by simp_all
  let ?i = "nextIndex d"
  from inv have i: "?i < dirCacheSize" and len: "length (entries d) = dirCacheSize"
    by (simp_all add: cache_inv_def)
  from fd0(2) have open0: "fd_open os fd0"
    by (auto simp: fd_inode_def split: if_splits)
  from Store_step [OF inv os own fd0(1) iv0, of p]
  obtain d' os' E where s: "Store d p fd0 iv0 os = Inr (d', os')"
    "cache_inv d'" "fds012_open os'" "cache_owns d' os'"
    "nextIndex d' = (nextIndex d + 1) mod dirCacheSize"
    "entries d' = (entries d)[nextIndex d := E]"
    "E = dirCacheEntry_empty
       \<or> (dirRelPath E = p \<and> iv E = iv0 \<and> 0 < fd E \<and> fd_inode os' (fd E) = fd_inode os fd0)"
    "fd_open os fd0 \<and> fd (entries d ! nextIndex d) \<noteq> fd0 \<and> 0 < free_fds os
       \<longrightarrow> E \<noteq> dirCacheEntry_empty"
    "free_fds os \<le> Suc (free_fds os')"
    by blast
  from s(8) open0 notown room have "E \<noteq> dirCacheEntry_empty" by simp
  with s(7) fd0(2) have E: "dirRelPath E = p" "iv E = iv0" "0 < fd E"
    "fd_inode os' (fd E) = Some inode"
    by simp_all
  from s(6) i len have slot: "entries d' ! ?i = E" by simp
  from i have "(?i + 3 - (?i + 1) mod 3) mod 3 = 2"
    unfolding dirCacheSize_def by (rule slot_just_stored)
  with ops(2) s(5)
  have cnt: "length (filter is_Store ops) \<le> (?i + dirCacheSize - nextIndex d') mod dirCacheSize"
    by (simp add: dirCacheSize_def)
  from room s(9) have fr: "length ops < free_fds os'" by simp
  from intervening_keeps_entry [OF s(2-4) i slot E(3,4) ops(1) cnt fr]
  obtain rs d1 os1 where r: "cache_run ops (d', os') = Inr (rs, d1, os1)"
    "cache_inv d1" "fds012_open os1" "cache_owns d1 os1"
    "entries d1 ! ?i = E" "fd_inode os1 (fd E) = Some inode" "0 < free_fds os1"
    by blast
  from s(1) r(1) have run: "cache_run (OpStore p fd0 iv0 # ops) (d, os) = Inr (rs, d1, os1)"
    by simp
  have hit: "\<exists>fd' os2. Lookup d1 p os1 = Inr ((fd', iv0), d1, os2)
                        \<and> 0 < fd' \<and> \<not> fd_open os1 fd' \<and> fd_inode os2 fd' = Some inode"
    if first: "\<forall>j < ?i. \<not> (0 < fd (entries d1 ! j) \<and> dirRelPath (entries d1 ! j) = p)"
  proof -
    from r(2) i have idx: "?i < length (entries d1)"
      by (simp add: cache_inv_def)
    from r(3) have zero: "fd_open os1 0"
      by (simp add: fds012_open_def)
    from Lookup_hit [OF idx first, where inode = inode and os = os1] r(5,6,7) E iv0 zero
    show ?thesis by simp
  qed
  from run hit
  show "\<exists>rs d1 os1.
           cache_run (OpStore p fd0 iv0 # ops) (d, os) = Inr (rs, d1, os1)
           \<and> ((\<forall>j < nextIndex d. \<not> (0 < fd (entries d1 ! j) \<and> dirRelPath (entries d1 ! j) = p))
                \<longrightarrow> (\<exists>fd' os2. Lookup d1 p os1 = Inr ((fd', iv0), d1, os2)
                        \<and> 0 < fd' \<and> \<not> fd_open os1 fd' \<and> fd_inode os2 fd' = Some inode))"
    by blast
next
  assume "\<forall>e \<in> set (entries d). 0 < fd e \<longrightarrow> dirRelPath e \<noteq> q"
  from Lookup_loop_miss [OF this, of os]
  show "Lookup d q os = Inr ((- 1, []), d, os)"
    by (simp add: Lookup_def enableStats_def)
next
  assume a: "0 < fd0 \<and> length iv0 = DirIVLen \<and> nextIndex d < length (entries d)
        \<and> dirCacheEntryStruct_Clear (entries d ! nextIndex d) os = (e1, osc)
        \<and> sys_Dup fd0 osc = ((x, Some err), osd)"
  then have dup: "sys_Dup fd0 osc = ((x, Some err), osd)" by simp
  from sys_Dup_err [OF dup] have "osd = osc" by simp
  with a Store_unfold [of fd0 iv0 d os e1 osc x "Some err" osd p]
  show "Store d p fd0 iv0 os =
              Inr (d\<lparr>nextIndex := (nextIndex d + 1) mod dirCacheSize,
                     entries := (entries d)[nextIndex d := dirCacheEntry_empty]\<rparr>, osc)"
    by simp
next
  assume a: "k < length (entries d)
        \<and> (\<forall>j < k. \<not> (0 < fd (entries d ! j) \<and> dirRelPath (entries d ! j) = q))
        \<and> 0 < fd (entries d ! k) \<and> dirRelPath (entries d ! k) = q
        \<and> sys_Dup (fd (entries d ! k)) os = ((y, Some err'), osl)"
  then have dup: "sys_Dup (fd (entries d ! k)) os = ((y, Some err'), osl)" by simp
  from sys_Dup_err [OF dup] have "osl = os" by simp
  moreover from a Lookup_loop_first_fails [of k "entries d" q os y err' osl]
  have "Lookup_loop (entries d) q os = Inl osl" by simp
  ultimately show "Lookup d q os = Inr ((- 1, []), d, os)"
    by (simp add: Lookup_def enableStats_def)
qed

theorem Lookup_after_Store_witness:
  "cache_inv demo_cache \<and> fds012_open demo_room \<and> cache_owns demo_cache demo_room
   \<and> fd_inode demo_room 3 = Some 7 \<and> length (demo_iv 1) = DirIVLen
   \<and> fd (entries demo_cache ! nextIndex demo_cache) \<noteq> 3
   \<and> list_all intervening demo_between
   \<and> length (filter is_Store demo_between) < dirCacheSize
   \<and> length demo_between + 2 \<le> free_fds demo_room
   \<and> (\<exists>rs d1 os1 fd' os2.
         cache_run (OpStore ''a'' 3 (demo_iv 1) # demo_between) (demo_cache, demo_room)
           = Inr (rs, d1, os1)
         \<and> (\<forall>j < nextIndex demo_cache.
               \<not> (0 < fd (entries d1 ! j) \<and> dirRelPath (entries d1 ! j) = ''a''))
         \<and> Lookup d1 ''a'' os1 = Inr ((fd', demo_iv 1), d1, os2)
         \<and> 0 < fd' \<and> \<not> fd_open os1 fd' \<and> fd_inode os2 fd' = Some 7)
   \<and> returned (cache_run (OpStore ''a'' 3 (demo_iv 1) # demo_between @ [OpLookup ''a''])
         (demo_cache, demo_room))
       = Some [(6, demo_iv 9, Some 9), (- 1, [], None), (8, demo_iv 1, Some 7)]
   \<and> Lookup demo_cache ''b'' demo_room = Inr ((- 1, []), demo_cache, demo_room)
   \<and> dirCacheEntryStruct_Clear (entries demo_cache ! nextIndex demo_cache) demo_full
       = (dirCacheEntry_empty, demo_full)
   \<and> sys_Dup 3 demo_full = ((- 1, Some EMFILE), demo_full)
   \<and> Store demo_cache ''a'' 3 (demo_iv 1) demo_full =
       Inr (demo_cache\<lparr>nextIndex := 2,
                        entries := (entries demo_cache)[1 := dirCacheEntry_empty]\<rparr>, demo_full)
   \<and> sys_Dup (fd (entries demo_cache ! 0)) demo_full = ((- 1, Some EMFILE), demo_full)
   \<and> Lookup demo_cache ''x'' demo_full = Inr ((- 1, []), demo_cache, demo_full)"
proof -
  let ?D1 = "\<lparr>entries =
            [\<lparr>dirRelPath = ''x'', fd = 4, iv = demo_iv 9\<rparr>,
             \<lparr>dirRelPath = ''a'', fd = 5, iv = demo_iv 1\<rparr>,
             \<lparr>dirRelPath = ''c'', fd = 7, iv = demo_iv 2\<rparr>],
            nextIndex = 0, expireThreadRunning = True, lookups = 0, hits = 0\<rparr>"
  let ?OS1 = "\<lparr>fdtab = [Some 0, Some 0, Some 0, Some 7, Some 9, Some 7, Some 9, Some 7,
                         None, None], closes = []\<rparr>"
  have h: "cache_inv demo_cache" "fds012_open demo_room" "cache_owns demo_cache demo_room"
    "(0::int) < 3" "fd_inode demo_room 3 = Some 7" "length (demo_iv 1) = DirIVLen"
    "fd (entries demo_cache ! nextIndex demo_cache) \<noteq> 3"
    "list_all intervening demo_between"
    "length (filter is_Store demo_between) < dirCacheSize"
    "length demo_between + 2 \<le> free_fds demo_room"
    by (simp_all add: cache_inv_def cache_owns_def fds012_open_def free_fds_def
        demo_cache_def demo_room_def demo_between_def cache_eval)
  have run: "cache_run (OpStore ''a'' 3 (demo_iv 1) # demo_between) (demo_cache, demo_room)
      = Inr ([(6, demo_iv 9), (- 1, [])], ?D1, ?OS1)"
    by (simp add: cache_eval demo_cache_def demo_room_def demo_between_def)
  have first: "\<forall>j < nextIndex demo_cache.
      \<not> (0 < fd (entries ?D1 ! j) \<and> dirRelPath (entries ?D1 ! j) = ''a'')"
    by (simp add: demo_cache_def)
  have "\<exists>rs d1 os1.
           cache_run (OpStore ''a'' 3 (demo_iv 1) # demo_between) (demo_cache, demo_room)
             = Inr (rs, d1, os1)
           \<and> ((\<forall>j < nextIndex demo_cache.
                  \<not> (0 < fd (entries d1 ! j) \<and> dirRelPath (entries d1 ! j) = ''a''))
                \<longrightarrow> (\<exists>fd' os2. Lookup d1 ''a'' os1 = Inr ((fd', demo_iv 1), d1, os2)
                        \<and> 0 < fd' \<and> \<not> fd_open os1 fd' \<and> fd_inode os2 fd' = Some 7))"
    by (rule Lookup_after_Store [where d = demo_cache and os = demo_room and ?fd0.0 = 3
          and inode = 7 and ?iv0.0 = "demo_iv 1" and ops = demo_between and p = "''a''",
          THEN conjunct1, THEN mp])
       (intro conjI h)
  then obtain rs d1 os1 where r: "cache_run (OpStore ''a'' 3 (demo_iv 1) # demo_between)
        (demo_cache, demo_room) = Inr (rs, d1, os1)"
    "(\<forall>j < nextIndex demo_cache.
        \<not> (0 < fd (entries d1 ! j) \<and> dirRelPath (entries d1 ! j) = ''a''))
     \<longrightarrow> (\<exists>fd' os2. Lookup d1 ''a'' os1 = Inr ((fd', demo_iv 1), d1, os2)
            \<and> 0 < fd' \<and> \<not> fd_open os1 fd' \<and> fd_inode os2 fd' = Some 7)"
    by blast
  from r(1) run have eq: "d1 = ?D1" "os1 = ?OS1" by simp_all
  with r(2) first obtain fd' os2 where l: "Lookup d1 ''a'' os1 = Inr ((fd', demo_iv 1), d1, os2)"
    "0 < fd'" "\<not> fd_open os1 fd'" "fd_inode os2 fd' = Some 7"
    by blast
  from r(1) first eq l have hit: "\<exists>rs d1 os1 fd' os2.
         cache_run (OpStore ''a'' 3 (demo_iv 1) # demo_between) (demo_cache, demo_room)
           = Inr (rs, d1, os1)
         \<and> (\<forall>j < nextIndex demo_cache.
               \<not> (0 < fd (entries d1 ! j) \<and> dirRelPath (entries d1 ! j) = ''a''))
         \<and> Lookup d1 ''a'' os1 = Inr ((fd', demo_iv 1), d1, os2)
         \<and> 0 < fd' \<and> \<not> fd_open os1 fd' \<and> fd_inode os2 fd' = Some 7"
    by blast
  have all: "returned (cache_run (OpStore ''a'' 3 (demo_iv 1) # demo_between @ [OpLookup ''a''])
         (demo_cache, demo_room))
       = Some [(6, demo_iv 9, Some 9), (- 1, [], None), (8, demo_iv 1, Some 7)]"
    by (simp add: cache_eval demo_cache_def demo_room_def demo_between_def returned_def)
  have nob: "\<forall>e \<in> set (entries demo_cache). 0 < fd e \<longrightarrow> dirRelPath e \<noteq> ''b''"
    by (simp add: demo_cache_def dirCacheEntry_zero_def)
  have miss: "Lookup demo_cache ''b'' demo_room = Inr ((- 1, []), demo_cache, demo_room)"
    by (rule Lookup_after_Store [where d = demo_cache and os = demo_room and q = "''b''",
          THEN conjunct2, THEN conjunct1, THEN mp])
       (rule nob)
  have f1: "(0::int) < 3" "length (demo_iv 1) = DirIVLen"
    "nextIndex demo_cache < length (entries demo_cache)"
    "dirCacheEntryStruct_Clear (entries demo_cache ! nextIndex demo_cache) demo_full
       = (dirCacheEntry_empty, demo_full)"
    "sys_Dup 3 demo_full = ((- 1, Some EMFILE), demo_full)"
    by (simp_all add: cache_eval demo_cache_def demo_full_def)
  have "Store demo_cache ''a'' 3 (demo_iv 1) demo_full =
       Inr (demo_cache\<lparr>nextIndex := (nextIndex demo_cache + 1) mod dirCacheSize,
                        entries := (entries demo_cache)[nextIndex demo_cache := dirCacheEntry_empty]\<rparr>,
            demo_full)"
    by (rule Lookup_after_Store [where d = demo_cache and os = demo_full and ?fd0.0 = 3
          and ?iv0.0 = "demo_iv 1" and ?e1.0 = dirCacheEntry_empty and osc = demo_full
          and x = "- 1" and err = EMFILE and osd = demo_full and p = "''a''",
          THEN conjunct2, THEN conjunct2, THEN conjunct1, THEN mp])
       (intro conjI f1)
  then have nostore: "Store demo_cache ''a'' 3 (demo_iv 1) demo_full =
       Inr (demo_cache\<lparr>nextIndex := 2,
                        entries := (entries demo_cache)[1 := dirCacheEntry_empty]\<rparr>, demo_full)"
    by (simp add: demo_cache_def dirCacheSize_def)
  have f2: "0 < length (entries demo_cache)"
    "\<forall>j < 0. \<not> (0 < fd (entries demo_cache ! j) \<and> dirRelPath (entries demo_cache ! j) = ''x'')"
    "0 < fd (entries demo_cache ! 0)" "dirRelPath (entries demo_cache ! 0) = ''x''"
    "sys_Dup (fd (entries demo_cache ! 0)) demo_full = ((- 1, Some EMFILE), demo_full)"
    by (simp_all add: cache_eval demo_cache_def demo_full_def)
  have nodup: "Lookup demo_cache ''x'' demo_full = Inr ((- 1, []), demo_cache, demo_full)"
    by (rule Lookup_after_Store [where d = demo_cache and os = demo_full and k = 0
          and q = "''x''" and y = "- 1" and err' = EMFILE and osl = demo_full,
          THEN conjunct2, THEN conjunct2, THEN conjunct2, THEN mp])
       (intro conjI f2)
  from h hit all miss f1 nostore f2 nodup show ?thesis
    by (intro conjI)
qed

text \<open>
  The claim as first stated fails in two ways. First run: the path is stored twice, with
  descriptors 3 (inode 7) and 4 (inode 8) and two different IVs; the \<^verbatim>\<open>Lookup\<close> scans
  the slots from index 0, so it returns the IV and the inode of the first \<^verbatim>\<open>Store\<close>, not
  of the last. Second run: the descriptor table is full, the \<^verbatim>\<open>Dup\<close> in \<^verbatim>\<open>Store\<close> fails,
  nothing is stored, and the \<^verbatim>\<open>Lookup\<close> that follows is a miss.
\<close>

theorem Lookup_after_Store_counterexample:
  "returned (cache_run [OpStore ''a'' 3 (demo_iv 1), OpStore ''a'' 4 (demo_iv 2), OpLookup ''a'']
       (dirCache_zero, demo_os [Some 0, Some 0, Some 0, Some 7, Some 8, None, None, None])) =
     Some [(7, demo_iv 1, Some 7)]
   \<and> returned (cache_run [OpStore ''a'' 3 (demo_iv 1), OpLookup ''a'']
       (dirCache_zero, demo_os [Some 0, Some 0, Some 0, Some 7])) =
     Some [(- 1, [], None)]"
  by (simp add: cache_eval returned_def)

section \<open>Claim C8: pre-reserving space with fallocate\<close>

lemma EnospcPrealloc_retry:
  assumes "sys (length (fallocate_calls st)) (fd0, FALLOC_FL_KEEP_SIZE, off, len) = Some EINTR"
  shows "EnospcPrealloc sys fd0 off len st =
           EnospcPrealloc sys fd0 off len
             (st\<lparr>fallocate_calls := fallocate_calls st @ [(fd0, FALLOC_FL_KEEP_SIZE, off, len)]\<rparr>)"
  using assms by (subst EnospcPrealloc.simps) (simp add: Let_def)

lemma EnospcPrealloc_done:
  assumes "sys (length (fallocate_calls st)) (fd0, FALLOC_FL_KEEP_SIZE, off, len) = r"
    and "r \<noteq> Some EINTR"
  shows "EnospcPrealloc sys fd0 off len st =
           (let st1 = st\<lparr>fallocate_calls :=
                          fallocate_calls st @ [(fd0, FALLOC_FL_KEEP_SIZE, off, len)]\<rparr>
            in if r = Some EOPNOTSUPP then Some (None, preallocWarn_Do st1) else Some (r, st1))"
  using assms by (subst EnospcPrealloc.simps) (simp add: Let_def)

text \<open>
  The loop has no bound on the number of retries: a result is returned only after an
  answer other than \<open>EINTR\<close>, and against a kernel that answers \<open>EINTR\<close> to every call
  \<^verbatim>\<open>EnospcPrealloc\<close> does not return.
\<close>

lemma EnospcPrealloc_returns_after_other_answer:
  assumes "EnospcPrealloc sys fd0 off len st = Some y"
  shows "\<exists>n. sys n (fd0, FALLOC_FL_KEEP_SIZE, off, len) \<noteq> Some EINTR"
  using assms
proof (induct sys fd0 off len st y rule: EnospcPrealloc.raw_induct)
  case (1 again sys fd0 off len st y)
  let ?st1 = "st\<lparr>fallocate_calls := fallocate_calls st @ [(fd0, FALLOC_FL_KEEP_SIZE, off, len)]\<rparr>"
  show ?case
  proof (cases "sys (length (fallocate_calls st)) (fd0, FALLOC_FL_KEEP_SIZE, off, len) = Some EINTR")
    case True
    with 1(2) have a: "again sys fd0 off len ?st1 = Some y"
      by (simp add: Let_def)
    from True 1(3) have b: "EnospcPrealloc sys fd0 off len ?st1 = Some y"
      by (subst (asm) EnospcPrealloc.simps) (simp add: Let_def)
    from a b show ?thesis by (rule 1(1))
  next
    case False
    then show ?thesis by blast
  qed
qed (rule assms)

lemma EnospcPrealloc_never_returns:
  assumes "\<forall>n. sys n (fd0, FALLOC_FL_KEEP_SIZE, off, len) = Some EINTR"
  shows "EnospcPrealloc sys fd0 off len st = None"
proof (cases "EnospcPrealloc sys fd0 off len st")
  case None
  then show ?thesis .
next
  case (Some y)
  from EnospcPrealloc_returns_after_other_answer [OF Some] assms show ?thesis
    by blast
qed

text \<open>
  C8. For every descriptor, offset and length: when the kernel answers \<open>n\<close> calls with
  \<open>EINTR\<close> and the next one with something else, \<^verbatim>\<open>EnospcPrealloc\<close> returns after exactly
  \<open>n + 1\<close> calls of \<^verbatim>\<open>fallocate\<close>, each with the mode \<^verbatim>\<open>FALLOC_FL_KEEP_SIZE\<close> and the
  arguments given. If the last answer is \<open>EOPNOTSUPP\<close> it returns \<^verbatim>\<open>nil\<close>, and the
  warning is written only if \<^verbatim>\<open>preallocWarn\<close> had not fired before; any other answer
  (\<^verbatim>\<open>nil\<close> or an errno) is returned as it is and no warning is written. The relation
  between the flag and the warnings written is kept, so over any number of calls in
  one process at most one warning is written.
\<close>

theorem EnospcPrealloc_policy:
  assumes intr: "\<forall>j < n. sys (length (fallocate_calls st) + j) (fd0, FALLOC_FL_KEEP_SIZE, off, len)
                    = Some EINTR"
    and last: "sys (length (fallocate_calls st) + n) (fd0, FALLOC_FL_KEEP_SIZE, off, len) = r"
    and other: "r \<noteq> Some EINTR"
    and once: "once_inv st"
  shows "\<exists>st'. EnospcPrealloc sys fd0 off len st =
                 Some (if r = Some EOPNOTSUPP then None else r, st')
           \<and> fallocate_calls st' =
               fallocate_calls st @ replicate (Suc n) (fd0, FALLOC_FL_KEEP_SIZE, off, len)
           \<and> preallocWarn_done st' = (preallocWarn_done st \<or> r = Some EOPNOTSUPP)
           \<and> warnings st' =
               (if r = Some EOPNOTSUPP \<and> \<not> preallocWarn_done st then warnings st + 1
                else warnings st)
           \<and> once_inv st' \<and> warnings st' \<le> 1"
  using intr last once
proof (induction n arbitrary: st)
  case 0
  let ?st1 = "st\<lparr>fallocate_calls := fallocate_calls st @ [(fd0, FALLOC_FL_KEEP_SIZE, off, len)]\<rparr>"
  from 0(2) have now: "sys (length (fallocate_calls st)) (fd0, FALLOC_FL_KEEP_SIZE, off, len) = r"
    by simp
  show ?case
  proof (cases "r = Some EOPNOTSUPP")
    case True
    with EnospcPrealloc_done [of sys st fd0 off len r, OF now other]
    have "EnospcPrealloc sys fd0 off len st = Some (None, preallocWarn_Do ?st1)"
      by (simp add: Let_def)
    with True 0(3) show ?thesis
      by (auto simp: preallocWarn_Do_def once_inv_def)
  next
    case False
    with EnospcPrealloc_done [of sys st fd0 off len r, OF now other]
    have "EnospcPrealloc sys fd0 off len st = Some (r, ?st1)"
      by (simp add: Let_def)
    with False 0(3) show ?thesis
      by (auto simp: once_inv_def)
  qed
next
  case (Suc n)
  let ?st1 = "st\<lparr>fallocate_calls := fallocate_calls st @ [(fd0, FALLOC_FL_KEEP_SIZE, off, len)]\<rparr>"
  from Suc.prems(1) have "sys (length (fallocate_calls st)) (fd0, FALLOC_FL_KEEP_SIZE, off, len)
      = Some EINTR"
    by (metis add.right_neutral zero_less_Suc)
  from EnospcPrealloc_retry [of sys st fd0 off len, OF this]
  have step: "EnospcPrealloc sys fd0 off len st = EnospcPrealloc sys fd0 off len ?st1" .
  have a: "\<forall>j < n. sys (length (fallocate_calls ?st1) + j) (fd0, FALLOC_FL_KEEP_SIZE, off, len)
      = Some EINTR"
  proof (intro allI impI)
    fix j
    assume "j < n"
    then have "Suc j < Suc n" by simp
    with Suc.prems(1) have "sys (length (fallocate_calls st) + Suc j)
        (fd0, FALLOC_FL_KEEP_SIZE, off, len) = Some EINTR"
      by blast
    then show "sys (length (fallocate_calls ?st1) + j) (fd0, FALLOC_FL_KEEP_SIZE, off, len)
        = Some EINTR"
      by simp
  qed
  from Suc.prems(2) have b: "sys (length (fallocate_calls ?st1) + n)
      (fd0, FALLOC_FL_KEEP_SIZE, off, len) = r"
    by simp
  from Suc.prems(3) have c: "once_inv ?st1"
    by (simp add: once_inv_def)
  from Suc.IH [of ?st1, OF a b c] step show ?case
    by (auto simp: replicate_append_same)
qed

theorem EnospcPrealloc_policy_witness:
  "once_inv prealloc_init
   \<and> EnospcPrealloc (demo_fallocate [Some EINTR, Some EINTR, Some EOPNOTSUPP, Some EOPNOTSUPP])
         7 0 4124 prealloc_init =
       Some (None, \<lparr> fallocate_calls = [(7, 1, 0, 4124), (7, 1, 0, 4124), (7, 1, 0, 4124)],
                     preallocWarn_done = True, warnings = 1 \<rparr>)
   \<and> EnospcPrealloc (demo_fallocate [Some EINTR, Some EINTR, Some EOPNOTSUPP, Some EOPNOTSUPP])
         7 0 4124
         \<lparr> fallocate_calls = [(7, 1, 0, 4124), (7, 1, 0, 4124), (7, 1, 0, 4124)],
           preallocWarn_done = True, warnings = 1 \<rparr> =
       Some (None, \<lparr> fallocate_calls = [(7, 1, 0, 4124), (7, 1, 0, 4124), (7, 1, 0, 4124),
                                        (7, 1, 0, 4124)],
                     preallocWarn_done = True, warnings = 1 \<rparr>)"
proof -
  let ?sys = "demo_fallocate [Some EINTR, Some EINTR, Some EOPNOTSUPP, Some EOPNOTSUPP]"
  let ?st1 = "\<lparr> fallocate_calls = [(7, 1, 0, 4124), (7, 1, 0, 4124), (7, 1, 0, 4124)],
                preallocWarn_done = True, warnings = 1 \<rparr>"
  have a: "\<forall>j < 2. ?sys (length (fallocate_calls prealloc_init) + j) (7, FALLOC_FL_KEEP_SIZE, 0, 4124)
      = Some EINTR"
    by (simp add: demo_fallocate_def prealloc_init_def less_Suc_eq numeral_2_eq_2)
  have b: "?sys (length (fallocate_calls prealloc_init) + 2) (7, FALLOC_FL_KEEP_SIZE, 0, 4124)
      = Some EOPNOTSUPP"
    by (simp add: demo_fallocate_def prealloc_init_def)
  have c: "Some EOPNOTSUPP \<noteq> Some EINTR"
    by (simp add: EOPNOTSUPP_def EINTR_def)
  have d: "once_inv prealloc_init"
    by (simp add: once_inv_def prealloc_init_def)
  from EnospcPrealloc_policy [of 2 ?sys prealloc_init 7 0 4124 "Some EOPNOTSUPP", OF a b c d]
  obtain st' where r: "EnospcPrealloc ?sys 7 0 4124 prealloc_init = Some (None, st')"
    "fallocate_calls st' = replicate 3 (7, FALLOC_FL_KEEP_SIZE, 0, 4124)"
    "preallocWarn_done st'" "warnings st' = 1"
    by (auto simp: prealloc_init_def)
  then have first: "EnospcPrealloc ?sys 7 0 4124 prealloc_init = Some (None, ?st1)"
    by (cases st') (simp add: FALLOC_FL_KEEP_SIZE_def numeral_3_eq_3)
  have a2: "\<forall>j < 0. ?sys (length (fallocate_calls ?st1) + j) (7, FALLOC_FL_KEEP_SIZE, 0, 4124)
      = Some EINTR"
    by simp
  have b2: "?sys (length (fallocate_calls ?st1) + 0) (7, FALLOC_FL_KEEP_SIZE, 0, 4124)
      = Some EOPNOTSUPP"
    by (simp add: demo_fallocate_def)
  have d2: "once_inv ?st1"
    by (simp add: once_inv_def)
  from EnospcPrealloc_policy [of 0 ?sys ?st1 7 0 4124 "Some EOPNOTSUPP", OF a2 b2 c d2]
  obtain st'' where r2: "EnospcPrealloc ?sys 7 0 4124 ?st1 = Some (None, st'')"
    "fallocate_calls st'' = fallocate_calls ?st1 @ replicate 1 (7, FALLOC_FL_KEEP_SIZE, 0, 4124)"
    "preallocWarn_done st''" "warnings st'' = 1"
    by auto
  then have second: "EnospcPrealloc ?sys 7 0 4124 ?st1 =
      Some (None, \<lparr> fallocate_calls = [(7, 1, 0, 4124), (7, 1, 0, 4124), (7, 1, 0, 4124),
                                        (7, 1, 0, 4124)],
                     preallocWarn_done = True, warnings = 1 \<rparr>)"
    by (cases st'') (simp add: FALLOC_FL_KEEP_SIZE_def)
  from d first second show ?thesis
    by simp
qed

section \<open>Claim C3: reading the directory IV\<close>

text \<open>
  C3. For every directory descriptor, \<^verbatim>\<open>ReadDirIVAt\<close> first calls \<^verbatim>\<open>Openat\<close> on
  \<^verbatim>\<open>gocryptfs.diriv\<close> relative to it with the flags \<^verbatim>\<open>O_RDONLY|O_NOFOLLOW\<close>. If that fails
  it returns the error and does nothing else. Otherwise it issues one \<^verbatim>\<open>Read\<close> with a
  buffer of 17 bytes and closes the file; it returns the bytes read, with no error, if
  the \<^verbatim>\<open>Read\<close> reported no error but possibly \<^verbatim>\<open>io.EOF\<close>, exactly 16 bytes were read and
  they are not all zero; in every other case it returns no bytes and an error.
\<close>

theorem ReadDirIVAt_checks:
  "(k_openat k dirfd DirIVFilename (O_RDONLY OR O_NOFOLLOW) 0 = Inl e \<longrightarrow>
      ReadDirIVAt k dirfd =
        (([], Some (Errno e)), [Sys_Openat dirfd DirIVFilename (O_RDONLY OR O_NOFOLLOW) 0]))
   \<and> (k_openat k dirfd DirIVFilename (O_RDONLY OR O_NOFOLLOW) 0 = Inr fd1
        \<and> k_read k fd1 17 = (got, err) \<longrightarrow>
        snd (ReadDirIVAt k dirfd) =
          [Sys_Openat dirfd DirIVFilename (O_RDONLY OR O_NOFOLLOW) 0, Sys_Read fd1 17,
           Sys_Close fd1]
        \<and> (if (err = None \<or> err = Some EOF) \<and> length (take 17 got) = 16
               \<and> take 17 got \<noteq> replicate 16 0
            then fst (ReadDirIVAt k dirfd) = (take 17 got, None)
            else fst (fst (ReadDirIVAt k dirfd)) = []
                 \<and> snd (fst (ReadDirIVAt k dirfd)) \<noteq> None))"
  by (cases err)
    (auto simp: ReadDirIVAt_def fdReadDirIV_def Let_def DirIVLen_def allZeroDirIV_def
      split: option.splits)

theorem ReadDirIVAt_checks_witness:
  "k_openat (demo_kernel (Inl 2) ([], None) (0, None) None None) 4 DirIVFilename
       (O_RDONLY OR O_NOFOLLOW) 0 = Inl 2
   \<and> ReadDirIVAt (demo_kernel (Inl 2) ([], None) (0, None) None None) 4 =
       (([], Some (Errno 2)), [Sys_Openat 4 ''gocryptfs.diriv'' 131072 0])
   \<and> k_openat (demo_kernel (Inr 5) (demo_iv 3, None) (0, None) None None) 4 DirIVFilename
       (O_RDONLY OR O_NOFOLLOW) 0 = Inr 5
   \<and> k_read (demo_kernel (Inr 5) (demo_iv 3, None) (0, None) None None) 5 17 = (demo_iv 3, None)
   \<and> ReadDirIVAt (demo_kernel (Inr 5) (demo_iv 3, None) (0, None) None None) 4 =
       ((demo_iv 3, None),
        [Sys_Openat 4 ''gocryptfs.diriv'' 131072 0, Sys_Read 5 17, Sys_Close 5])
   \<and> ReadDirIVAt (demo_kernel (Inr 5) (demo_iv 0, None) (0, None) None None) 4 =
       (([], Some AllZeroDirIV),
        [Sys_Openat 4 ''gocryptfs.diriv'' 131072 0, Sys_Read 5 17, Sys_Close 5])
   \<and> ReadDirIVAt (demo_kernel (Inr 5) (demo_iv 3 @ [3], None) (0, None) None None) 4 =
       (([], Some (WantedGot 16 17)),
        [Sys_Openat 4 ''gocryptfs.diriv'' 131072 0, Sys_Read 5 17, Sys_Close 5])
   \<and> ReadDirIVAt (demo_kernel (Inr 5) (demo_iv 3, Some (Errno EIO)) (0, None) None None) 4 =
       (([], Some (ReadFailed (Errno EIO))),
        [Sys_Openat 4 ''gocryptfs.diriv'' 131072 0, Sys_Read 5 17, Sys_Close 5])"
  using
    ReadDirIVAt_checks [where k = "demo_kernel (Inl 2) ([], None) (0, None) None None"
      and dirfd = 4 and e = 2]
    ReadDirIVAt_checks [where k = "demo_kernel (Inr 5) (demo_iv 3, None) (0, None) None None"
      and dirfd = 4 and ?fd1.0 = 5 and got = "demo_iv 3" and err = None]
  by (simp add: ReadDirIVAt_def fdReadDirIV_def allZeroDirIV_def DirIVLen_def
      O_RDONLY_def O_NOFOLLOW_def demo_kernel_def DirIVFilename_def demo_iv_def
      replicate_numeral_Cons)

section \<open>Claim C9: writing the directory IV\<close>

text \<open>
  C9 (as amended). For every directory descriptor, \<^verbatim>\<open>WriteDirIVAt\<close> first calls \<^verbatim>\<open>Openat\<close>
  on \<^verbatim>\<open>gocryptfs.diriv\<close> relative to it with the flags \<^verbatim>\<open>O_WRONLY|O_CREAT|O_EXCL\<close> and the
  mode \<^verbatim>\<open>0400\<close>; if that fails it returns the error, makes no other call and leaves the
  directory as it was. Otherwise it writes the 16 bytes that \<^verbatim>\<open>RandBytes\<close> gave and closes
  the file. If the write fails, or else the close, it calls \<^verbatim>\<open>Unlinkat\<close> on the file and
  returns that error unchanged; the file is gone afterwards if, and only if, that
  \<^verbatim>\<open>Unlinkat\<close> succeeded, since its result is not looked at. Without a failure no
  \<^verbatim>\<open>Unlinkat\<close> is called and the file holds what was written.
\<close>

theorem WriteDirIVAt_unlinks_on_failure:
  "(k_openat k dirfd DirIVFilename (O_WRONLY OR O_CREAT OR O_EXCL) mode_0400 = Inl e \<longrightarrow>
      WriteDirIVAt k dirfd before =
        (Some (Errno e),
         [Sys_Openat dirfd DirIVFilename (O_WRONLY OR O_CREAT OR O_EXCL) mode_0400], before))
   \<and> (k_openat k dirfd DirIVFilename (O_WRONLY OR O_CREAT OR O_EXCL) mode_0400 = Inr fd1
        \<and> k_write k fd1 (k_RandBytes k 16) = (n, werr)
        \<and> failed = (if werr \<noteq> None then werr else k_close k fd1) \<longrightarrow>
        fst (WriteDirIVAt k dirfd before) = failed
        \<and> fst (snd (WriteDirIVAt k dirfd before)) =
            [Sys_Openat dirfd DirIVFilename (O_WRONLY OR O_CREAT OR O_EXCL) mode_0400,
             Sys_Write fd1 (k_RandBytes k 16), Sys_Close fd1]
            @ (if failed \<noteq> None then [Sys_Unlinkat dirfd DirIVFilename 0] else [])
        \<and> snd (snd (WriteDirIVAt k dirfd before)) =
            (if failed \<noteq> None \<and> k_unlinkat k dirfd DirIVFilename 0 = None then None
             else Some (take n (k_RandBytes k 16))))"
  by (auto simp: WriteDirIVAt_def Let_def DirIVLen_def)

theorem WriteDirIVAt_unlinks_on_failure_witness:
  "k_openat (demo_kernel (Inr 5) ([], None) (3, Some (Errno ENOSPC)) None None) 4 DirIVFilename
       (O_WRONLY OR O_CREAT OR O_EXCL) mode_0400 = Inr 5
   \<and> WriteDirIVAt (demo_kernel (Inr 5) ([], None) (3, Some (Errno ENOSPC)) None None) 4 None =
       (Some (Errno ENOSPC),
        [Sys_Openat 4 ''gocryptfs.diriv'' 193 256,
         Sys_Write 5 [1, 2, 3, 4, 5, 6, 7, 8, 9, 10, 11, 12, 13, 14, 15, 16],
         Sys_Close 5, Sys_Unlinkat 4 ''gocryptfs.diriv'' 0],
        None)
   \<and> WriteDirIVAt (demo_kernel (Inr 5) ([], None) (16, None) (Some (Errno EIO)) None) 4 None =
       (Some (Errno EIO),
        [Sys_Openat 4 ''gocryptfs.diriv'' 193 256,
         Sys_Write 5 [1, 2, 3, 4, 5, 6, 7, 8, 9, 10, 11, 12, 13, 14, 15, 16],
         Sys_Close 5, Sys_Unlinkat 4 ''gocryptfs.diriv'' 0],
        None)
   \<and> WriteDirIVAt (demo_kernel (Inr 5) ([], None) (16, None) None None) 4 None =
       (None,
        [Sys_Openat 4 ''gocryptfs.diriv'' 193 256,
         Sys_Write 5 [1, 2, 3, 4, 5, 6, 7, 8, 9, 10, 11, 12, 13, 14, 15, 16],
         Sys_Close 5],
        Some [1, 2, 3, 4, 5, 6, 7, 8, 9, 10, 11, 12, 13, 14, 15, 16])
   \<and> WriteDirIVAt (demo_kernel (Inl 17) ([], None) (16, None) None None) 4 (Some [1, 2]) =
       (Some (Errno 17), [Sys_Openat 4 ''gocryptfs.diriv'' 193 256], Some [1, 2])"
  using
    WriteDirIVAt_unlinks_on_failure
      [where k = "demo_kernel (Inr 5) ([], None) (3, Some (Errno ENOSPC)) None None"
         and dirfd = 4 and ?fd1.0 = 5 and n = 3 and werr = "Some (Errno ENOSPC)"
         and failed = "Some (Errno ENOSPC)" and before = None]
    WriteDirIVAt_unlinks_on_failure
      [where k = "demo_kernel (Inl 17) ([], None) (16, None) None None"
         and dirfd = 4 and e = 17 and before = "Some [1, 2]"]
  by (simp add: WriteDirIVAt_def Let_def DirIVLen_def O_WRONLY_def O_CREAT_def O_EXCL_def
      mode_0400_def demo_kernel_def DirIVFilename_def)

text \<open>
  The claim as first stated says that no partly written file is left behind on a
  reported failure. Here the write stops after 3 bytes with \<open>ENOSPC\<close> and the
  \<^verbatim>\<open>Unlinkat\<close> fails as well: the error is reported and a 3-byte \<^verbatim>\<open>gocryptfs.diriv\<close> stays.
\<close>

theorem WriteDirIVAt_leaves_partial_file_counterexample:
  "WriteDirIVAt (demo_kernel (Inr 5) ([], None) (3, Some (Errno ENOSPC)) None
                   (Some (Errno ENOSPC))) 4 None =
     (Some (Errno ENOSPC),
      [Sys_Openat 4 ''gocryptfs.diriv'' 193 256,
       Sys_Write 5 [1, 2, 3, 4, 5, 6, 7, 8, 9, 10, 11, 12, 13, 14, 15, 16],
       Sys_Close 5, Sys_Unlinkat 4 ''gocryptfs.diriv'' 0],
      Some [1, 2, 3])"
  by (simp add: WriteDirIVAt_def Let_def DirIVLen_def O_WRONLY_def O_CREAT_def O_EXCL_def
      mode_0400_def demo_kernel_def DirIVFilename_def)

section \<open>Lemmas about the calls on the open file\<close>

lemmas file_eval =
  doRead_def doWrite_def Truncate_def Read_def ReadAt_def WriteAt_def Ftruncate_def Fstat_def
  fault_now_def CipherBS_def NONCE_LEN_def AUTH_TAG_LEN_def OK_def
  int64_def uint64_def add_int_def
  spec_cfs_def spec_CiphertextRange_def spec_PlainSize_def spec_BlockNoPlainOff_def
  spec_MergeBlocks_def demo_file_def no_faults_def demo_enc_def demo_dec_def demo_nonce_def
  demo_tag_def hello_def Let_def spec_DecryptBlocks.simps spec_SplitRange.simps

lemmas file_eval2 = file_eval two_blocks_def two_blocks_bad_def EIO_def

subsection \<open>Values that fit an int64\<close>

lemma int64_small: "n < 2 ^ 63 \<Longrightarrow> int64 n = int n"
  by (simp add: int64_def)

lemma int64_negative: "2 ^ 63 \<le> n \<Longrightarrow> n < 2 ^ 64 \<Longrightarrow> int64 n < 0"
  by (simp add: int64_def)

lemma uint64_int: "n < 2 ^ 64 \<Longrightarrow> uint64 (int n) = n"
  by (simp add: uint64_def)


subsection \<open>What doRead does to the open file\<close>

lemma ReadAt_trace:
  "trace (snd (ReadAt b n off)) = trace b @ [EvReadAt off n]
   \<and> content (snd (ReadAt b n off)) = content b \<and> faults (snd (ReadAt b n off)) = faults b"
  by (simp add: ReadAt_def Let_def split: option.splits)

lemma ReadAt_ok:
  "fault_now b = None \<Longrightarrow> 0 \<le> off \<Longrightarrow>
     fst (ReadAt b n off) =
       (take n (drop (nat off) (content b)),
        if length (take n (drop (nat off) (content b))) < n then Some EOF else None)"
  by (simp add: ReadAt_def Let_def)

lemma ReadAt_negative:
  "off < 0 \<Longrightarrow> fst (ReadAt b n off) = ([], Some NegativeOffset)"
  by (simp add: ReadAt_def Let_def)

lemma doRead_file:
  assumes "CiphertextRange (cfs f) off len = (ao, al, skip)"
    and "doRead f off len = Inr (r, f1)"
  shows "f1 = f\<lparr>file_fd := snd (ReadAt (file_fd f) (nat (int64 al)) (int64 ao))\<rparr>"
  using assms by (auto simp: doRead_def Let_def split_beta split: if_splits)

lemma doRead_trace:
  assumes "CiphertextRange (cfs f) off len = (ao, al, skip)"
    and "doRead f off len = Inr (r, f1)"
  shows "trace (file_fd f1) = trace (file_fd f) @ [EvReadAt (int64 ao) (nat (int64 al))]"
    and "content (file_fd f1) = content (file_fd f)"
    and "cfs f1 = cfs f"
  using doRead_file [OF assms] ReadAt_trace [of "file_fd f" "nat (int64 al)" "int64 ao"]
  by simp_all

lemma doRead_rw:
  assumes "doRead f off len = Inr (r, f1)"
  shows "\<exists>ws. trace (file_fd f1) = trace (file_fd f) @ ws \<and> list_all is_rw ws"
proof -
  obtain ao al skip where r: "CiphertextRange (cfs f) off len = (ao, al, skip)"
    by (cases "CiphertextRange (cfs f) off len")
  from doRead_trace(1) [OF r assms] show ?thesis by simp
qed

lemma doRead_makeslice_panic:
  assumes "CiphertextRange (cfs f) off len = (ao, al, skip)" and "int64 al < 0"
  shows "doRead f off len = Inl MakesliceLenOutOfRange"
  using assms by (simp add: doRead_def)

lemma doRead_negative_offset:
  assumes "CiphertextRange (cfs f) off len = (ao, al, skip)"
    and "0 \<le> int64 al" and "int64 ao < 0"
  shows "doRead f off len =
           Inr (([], ENOSYS), f\<lparr>file_fd := snd (ReadAt (file_fd f) (nat (int64 al)) (int64 ao))\<rparr>)"
  using assms ReadAt_negative [of "int64 ao" "file_fd f" "nat (int64 al)"]
  by (cases "ReadAt (file_fd f) (nat (int64 al)) (int64 ao)")
     (auto simp: doRead_def Let_def)

lemma doRead_auth_failure:
  assumes rng: "CiphertextRange (cfs f) off len = (ao, al, skip)"
    and rd: "fault_now (file_fd f) = None"
    and fits: "ao < 2 ^ 63" "al < 2 ^ 63"
    and bad: "snd (DecryptBlocks (cfs f) (take al (drop ao (content (file_fd f))))
                     (ao div CipherBS (cfs f))) \<noteq> None"
  shows "doRead f off len =
           Inr (([], EIO), f\<lparr>file_fd := snd (ReadAt (file_fd f) al (int ao))\<rparr>)"
proof -
  from fits have c: "int64 ao = int ao" "int64 al = int al"
    by (simp_all add: int64_small)
  from ReadAt_ok [OF rd, of "int ao" al]
  have r: "fst (ReadAt (file_fd f) al (int ao)) =
      (take al (drop ao (content (file_fd f))),
       if length (take al (drop ao (content (file_fd f)))) < al then Some EOF else None)"
    by simp
  show ?thesis
    using rng bad r
    by (cases "ReadAt (file_fd f) al (int ao)")
       (auto simp: doRead_def Let_def c split_beta split: if_splits)
qed


subsection \<open>What doWrite does to the open file\<close>

lemma WriteAt_trace:
  "trace (snd (WriteAt b buf off)) = trace b @ [EvWriteAt off buf]"
  by (simp add: WriteAt_def Let_def split: option.splits)

lemma doWrite_loop_rw:
  "doWrite_loop f bs buf w = Inr (r, f') \<Longrightarrow>
     \<exists>ws. trace (file_fd f') = trace (file_fd f) @ ws \<and> list_all is_rw ws"
proof (induction bs arbitrary: f buf w)
  case Nil
  then show ?case by simp
next
  case (Cons b bs)
  define m where "m =
    (if IsPartial b
     then case doRead f (fst (PlaintextRange b)) (PlainBS (cfs f)) of
            Inl p \<Rightarrow> Inl p
          | Inr ((oldData, st), f') \<Rightarrow>
              if st \<noteq> OK then Inr (([], st), f')
              else Inr ((MergeBlocks (cfs f) oldData (take (Length b) buf) (Skip b), OK), f')
     else Inr ((take (Length b) buf, OK), f))"
  have unfold: "doWrite_loop f (b # bs) buf w =
     (case m of
        Inl p \<Rightarrow> Inl p
      | Inr ((merged, rstatus), f1) \<Rightarrow>
          if rstatus \<noteq> OK then Inr ((w, rstatus), f1)
          else
            let blockOffset = fst (BlockCiphertextRange b);
                encrypted = EncryptBlock (cfs f) merged (BlockNo b);
                (err, b2) = WriteAt (file_fd f1) encrypted blockOffset;
                f2 = f1\<lparr>file_fd := b2\<rparr>
            in if err \<noteq> None then Inr ((w, ToStatus err), f2)
               else doWrite_loop f2 bs (drop (Length b) buf) ((w + Length b mod 2 ^ 32) mod 2 ^ 32))"
    unfolding m_def by (simp add: Let_def)
  from Cons.prems unfold obtain merged rstatus f1 where m: "m = Inr ((merged, rstatus), f1)"
    by (cases m) auto
  have f1: "\<exists>ws. trace (file_fd f1) = trace (file_fd f) @ ws \<and> list_all is_rw ws"
  proof (cases "IsPartial b")
    case True
    with m obtain x where "doRead f (fst (PlaintextRange b)) (PlainBS (cfs f)) = Inr (x, f1)"
      unfolding m_def by (auto split: sum.splits prod.splits if_splits)
    from doRead_rw [OF this] show ?thesis .
  next
    case False
    with m show ?thesis unfolding m_def by simp
  qed
  then obtain ws1 where ws1: "trace (file_fd f1) = trace (file_fd f) @ ws1" "list_all is_rw ws1"
    by auto
  obtain err b2 where wr:
    "WriteAt (file_fd f1) (EncryptBlock (cfs f) merged (BlockNo b)) (fst (BlockCiphertextRange b))
       = (err, b2)"
    by (cases "WriteAt (file_fd f1) (EncryptBlock (cfs f) merged (BlockNo b))
                 (fst (BlockCiphertextRange b))")
  from WriteAt_trace [of "file_fd f1" "EncryptBlock (cfs f) merged (BlockNo b)"
      "fst (BlockCiphertextRange b)"] wr
  have b2: "trace b2 = trace (file_fd f1)
      @ [EvWriteAt (fst (BlockCiphertextRange b)) (EncryptBlock (cfs f) merged (BlockNo b))]"
    by simp
  show ?case
  proof (cases "rstatus \<noteq> OK")
    case True
    with Cons.prems unfold m ws1 show ?thesis
      by auto
  next
    case ok: False
    show ?thesis
    proof (cases "err \<noteq> None")
      case True
      with Cons.prems unfold ok m wr ws1 b2 show ?thesis
        by (auto simp: Let_def)
    next
      case False
      let ?f2 = "f1\<lparr>file_fd := b2\<rparr>"
      let ?w = "(w + Length b mod 2 ^ 32) mod 2 ^ 32"
      from False ok m wr unfold Cons.prems
      have "doWrite_loop ?f2 bs (drop (Length b) buf) ?w = Inr (r, f')"
        by (simp add: Let_def)
      from Cons.IH [OF this]
      obtain ws2 where ws2: "trace (file_fd f') = trace (file_fd ?f2) @ ws2" "list_all is_rw ws2"
        by auto
      with ws1 b2 show ?thesis
        by simp
    qed
  qed
qed

lemma doWrite_rw:
  "doWrite f buf off = Inr (r, f') \<Longrightarrow>
     \<exists>ws. trace (file_fd f') = trace (file_fd f) @ ws \<and> list_all is_rw ws"
  unfolding doWrite_def by (rule doWrite_loop_rw)

lemma Fstat_ok:
  "fault_now b = None \<Longrightarrow>
     Fstat b = ((length (content b), None), b\<lparr>trace := trace b @ [EvFstat]\<rparr>)"
  by (simp add: Fstat_def Let_def)

lemma Ftruncate_trace:
  "trace (snd (Ftruncate b n)) = trace b @ [EvFtruncate n]"
  by (simp add: Ftruncate_def Let_def split: option.splits)

lemma Ftruncate_content:
  "fst (Ftruncate b n) = None \<Longrightarrow>
     content (snd (Ftruncate b n)) = take n (content b) @ replicate (n - length (content b)) 0"
  by (simp add: Ftruncate_def Let_def split: option.splits)

section \<open>Claim C1: the order of the calls when Truncate shrinks a file\<close>

text \<open>
  C1 (as amended). Let \<^verbatim>\<open>Stat\<close> succeed, let \<open>newSize\<close> be at most the plaintext size of
  the file, and let the new last block keep some bytes (\<open>plainOff < newSize\<close>, where
  \<open>plainOff\<close> is the start of the block that \<^verbatim>\<open>BlockNoPlainOff\<close> gives). Then \<^verbatim>\<open>Truncate\<close>
  first reads the bytes of that block that stay, with one positioned read and no
  change to the file. If the read fails it returns that status and does nothing else
  (and if \<^verbatim>\<open>doRead\<close> ends in a run-time panic, so does \<^verbatim>\<open>Truncate\<close>). Otherwise it calls
  \<^verbatim>\<open>Ftruncate\<close> with \<open>cipherOff\<close>, the start of that block, which cuts the whole block
  off; if that fails it returns the error and writes nothing. Only then it writes the
  bytes it has read back with \<^verbatim>\<open>doWrite\<close>, whose calls are positioned reads and writes,
  and returns the status of that. So every write comes after the \<^verbatim>\<open>Ftruncate\<close>, and the
  \<^verbatim>\<open>Ftruncate\<close> goes to the start of the new last block, not to the new end of the
  ciphertext.
\<close>

theorem Truncate_shrink_order:
  assumes stat: "fault_now (file_fd f) = None"
    and shrink: "newSize \<le> PlainSize (cfs f) (length (content (file_fd f)))"
    and plainOff: "plainOff = BlockNoPlainOff (cfs f) newSize * PlainBS (cfs f)"
    and cipherOff: "cipherOff = BlockNoPlainOff (cfs f) newSize * CipherBS (cfs f)"
    and residual: "plainOff < newSize"
    and rd: "doRead (f\<lparr>file_fd := snd (Fstat (file_fd f))\<rparr>) plainOff (newSize - plainOff) = r"
  shows "(r = Inl p \<longrightarrow> Truncate f newSize = Inl p)
         \<and> (r = Inr ((buf, st), f1)
              \<and> Ftruncate (file_fd f1) cipherOff = (terr, b2)
              \<and> doWrite (f1\<lparr>file_fd := b2\<rparr>) buf plainOff = w
            \<longrightarrow> Truncate f newSize =
                  (if st \<noteq> OK then Inr (st, f1)
                   else if terr \<noteq> None then Inr (ToStatus terr, f1\<lparr>file_fd := b2\<rparr>)
                   else case w of Inl q \<Rightarrow> Inl q | Inr ((n, wst), f3) \<Rightarrow> Inr (wst, f3))
                \<and> (\<exists>ao al. trace (file_fd f1) = trace (file_fd f) @ [EvFstat, EvReadAt ao al])
                \<and> content (file_fd f1) = content (file_fd f)
                \<and> trace b2 = trace (file_fd f1) @ [EvFtruncate cipherOff]
                \<and> (terr = None \<longrightarrow>
                     content b2 = take cipherOff (content (file_fd f))
                                  @ replicate (cipherOff - length (content (file_fd f))) 0)
                \<and> (\<forall>k wst f3. w = Inr ((k, wst), f3) \<longrightarrow>
                     (\<exists>ws. trace (file_fd f3) = trace b2 @ ws \<and> list_all is_rw ws)))"
proof (intro conjI impI)
  let ?f0 = "f\<lparr>file_fd := snd (Fstat (file_fd f))\<rparr>"
  from Fstat_ok [OF stat]
  have fs: "Fstat (file_fd f) = ((length (content (file_fd f)), None),
      (file_fd f)\<lparr>trace := trace (file_fd f) @ [EvFstat]\<rparr>)" .
  from residual have len: "0 < newSize - plainOff" "plainOff \<le> newSize" by simp_all
  {
    assume "r = Inl p"
    with rd shrink len plainOff cipherOff show "Truncate f newSize = Inl p"
      by (simp add: Truncate_def fs Let_def)
  }
  assume a: "r = Inr ((buf, st), f1)
              \<and> Ftruncate (file_fd f1) cipherOff = (terr, b2)
              \<and> doWrite (f1\<lparr>file_fd := b2\<rparr>) buf plainOff = w"
  then have rd': "doRead ?f0 plainOff (newSize - plainOff) = Inr ((buf, st), f1)"
    and tr: "Ftruncate (file_fd f1) cipherOff = (terr, b2)"
    and wr: "doWrite (f1\<lparr>file_fd := b2\<rparr>) buf plainOff = w"
    using rd by simp_all
  show "Truncate f newSize =
           (if st \<noteq> OK then Inr (st, f1)
            else if terr \<noteq> None then Inr (ToStatus terr, f1\<lparr>file_fd := b2\<rparr>)
            else case w of Inl q \<Rightarrow> Inl q | Inr ((n, wst), f3) \<Rightarrow> Inr (wst, f3))"
    using shrink len rd' tr wr plainOff cipherOff
    by (simp add: Truncate_def fs Let_def)
  obtain ao al skip where rng:
    "CiphertextRange (cfs ?f0) plainOff (newSize - plainOff) = (ao, al, skip)"
    by (cases "CiphertextRange (cfs ?f0) plainOff (newSize - plainOff)")
  from doRead_trace [OF rng rd'] fs
  have t1: "trace (file_fd f1) = trace (file_fd f) @ [EvFstat, EvReadAt (int64 ao) (nat (int64 al))]"
    and c1: "content (file_fd f1) = content (file_fd f)"
    by simp_all
  from t1 show "\<exists>ao al. trace (file_fd f1) = trace (file_fd f) @ [EvFstat, EvReadAt ao al]"
    by blast
  from c1 show "content (file_fd f1) = content (file_fd f)" .
  from Ftruncate_trace [of "file_fd f1" cipherOff] tr
  show "trace b2 = trace (file_fd f1) @ [EvFtruncate cipherOff]" by simp
  from Ftruncate_content [of "file_fd f1" cipherOff] tr c1
  show "content b2 = take cipherOff (content (file_fd f))
                           @ replicate (cipherOff - length (content (file_fd f))) 0"
    if "terr = None" using that by simp
  show "\<forall>k wst f3. w = Inr ((k, wst), f3) \<longrightarrow>
          (\<exists>ws. trace (file_fd f3) = trace b2 @ ws \<and> list_all is_rw ws)"
  proof (intro allI impI)
    fix k wst f3
    assume "w = Inr ((k, wst), f3)"
    with wr have "doWrite (f1\<lparr>file_fd := b2\<rparr>) buf plainOff = Inr ((k, wst), f3)" by simp
    from doWrite_rw [OF this]
    show "\<exists>ws. trace (file_fd f3) = trace b2 @ ws \<and> list_all is_rw ws" by simp
  qed
qed

theorem Truncate_shrink_order_witness:
  "fault_now (file_fd (demo_file 4096 (demo_enc hello 0) no_faults)) = None
   \<and> PlainSize (cfs (demo_file 4096 (demo_enc hello 0) no_faults))
         (length (content (file_fd (demo_file 4096 (demo_enc hello 0) no_faults)))) = 5
   \<and> BlockNoPlainOff (cfs (demo_file 4096 (demo_enc hello 0) no_faults)) 3 = 0
   \<and> result_of (doRead ((demo_file 4096 (demo_enc hello 0) no_faults)
                    \<lparr>file_fd := snd (Fstat (file_fd (demo_file 4096 (demo_enc hello 0) no_faults)))\<rparr>)
              0 3) = Inr ([104, 101, 108], OK)
   \<and> result_of (Truncate (demo_file 4096 (demo_enc hello 0) no_faults) 3) = Inr OK
   \<and> map_option trace (file_after (Truncate (demo_file 4096 (demo_enc hello 0) no_faults) 3)) =
       Some [EvFstat, EvReadAt 0 4124, EvFtruncate 0, EvReadAt 0 4124,
             EvWriteAt 0 (demo_enc [104, 101, 108] 0)]
   \<and> map_option content (file_after (Truncate (demo_file 4096 (demo_enc hello 0) no_faults) 3)) =
       Some (demo_enc [104, 101, 108] 0)
   \<and> fault_now (file_fd (demo_file (2 ^ 63) (demo_enc hello 0) no_faults)) = None
   \<and> PlainSize (cfs (demo_file (2 ^ 63) (demo_enc hello 0) no_faults))
         (length (content (file_fd (demo_file (2 ^ 63) (demo_enc hello 0) no_faults)))) = 5
   \<and> BlockNoPlainOff (cfs (demo_file (2 ^ 63) (demo_enc hello 0) no_faults)) 3 = 0
   \<and> doRead ((demo_file (2 ^ 63) (demo_enc hello 0) no_faults)
                \<lparr>file_fd := snd (Fstat (file_fd (demo_file (2 ^ 63) (demo_enc hello 0) no_faults)))\<rparr>)
          0 3 = Inl MakesliceLenOutOfRange
   \<and> Truncate (demo_file (2 ^ 63) (demo_enc hello 0) no_faults) 3 = Inl MakesliceLenOutOfRange"
proof -
  let ?f = "demo_file 4096 (demo_enc hello 0) no_faults"
  let ?r = "doRead (?f\<lparr>file_fd := snd (Fstat (file_fd ?f))\<rparr>) 0 (3 - 0)"
  let ?buf = "fst (fst (projr ?r))"
  let ?st = "snd (fst (projr ?r))"
  let ?f1 = "snd (projr ?r)"
  let ?t = "Ftruncate (file_fd ?f1) 0"
  let ?w = "doWrite (?f1\<lparr>file_fd := snd ?t\<rparr>) ?buf 0"
  have 1: "fault_now (file_fd ?f) = None"
    by (simp add: file_eval)
  have 2: "3 \<le> PlainSize (cfs ?f) (length (content (file_fd ?f)))"
    by (simp add: file_eval)
  have 3: "0 = BlockNoPlainOff (cfs ?f) 3 * PlainBS (cfs ?f)"
    by (simp add: file_eval)
  have 4: "0 = BlockNoPlainOff (cfs ?f) 3 * CipherBS (cfs ?f)"
    by (simp add: file_eval)
  have 5: "(0::nat) < 3" by simp
  have 6: "?r = Inr ((?buf, ?st), ?f1)"
    by (simp add: file_eval)
  have 7: "?t = (fst ?t, snd ?t)" by simp
  from Truncate_shrink_order [OF 1 2 3 4 5 refl, where buf = ?buf and st = ?st and ?f1.0 = ?f1
      and terr = "fst ?t" and ?b2.0 = "snd ?t" and w = ?w] 6 7
  have a: "Truncate ?f 3 =
      (if ?st \<noteq> OK then Inr (?st, ?f1)
       else if fst ?t \<noteq> None then Inr (ToStatus (fst ?t), ?f1\<lparr>file_fd := snd ?t\<rparr>)
       else case ?w of Inl q \<Rightarrow> Inl q | Inr ((n, wst), f3) \<Rightarrow> Inr (wst, f3))"
    by blast
  let ?g = "demo_file (2 ^ 63) (demo_enc hello 0) no_faults"
  let ?rg = "doRead (?g\<lparr>file_fd := snd (Fstat (file_fd ?g))\<rparr>) 0 (3 - 0)"
  have g1: "fault_now (file_fd ?g) = None"
    by (simp add: file_eval)
  have g2: "3 \<le> PlainSize (cfs ?g) (length (content (file_fd ?g)))"
    by (simp add: file_eval)
  have g3: "0 = BlockNoPlainOff (cfs ?g) 3 * PlainBS (cfs ?g)"
    by (simp add: file_eval)
  have g4: "0 = BlockNoPlainOff (cfs ?g) 3 * CipherBS (cfs ?g)"
    by (simp add: file_eval)
  have g6: "?rg = Inl MakesliceLenOutOfRange"
    by (simp add: file_eval)
  from Truncate_shrink_order [OF g1 g2 g3 g4 5 refl, where p = MakesliceLenOutOfRange] g6
  have b: "Truncate ?g 3 = Inl MakesliceLenOutOfRange"
    by blast
  have c: "PlainSize (cfs ?g) (length (content (file_fd ?g))) = 5"
      "BlockNoPlainOff (cfs ?g) 3 = 0"
    by (simp_all add: file_eval)
  from a have "Truncate ?f 3 =
      (if ?st \<noteq> OK then Inr (?st, ?f1)
       else if fst ?t \<noteq> None then Inr (ToStatus (fst ?t), ?f1\<lparr>file_fd := snd ?t\<rparr>)
       else case ?w of Inl q \<Rightarrow> Inl q | Inr ((n, wst), f3) \<Rightarrow> Inr (wst, f3))" .
  then have d: "fault_now (file_fd ?f) = None
   \<and> PlainSize (cfs ?f) (length (content (file_fd ?f))) = 5
   \<and> BlockNoPlainOff (cfs ?f) 3 = 0
   \<and> result_of (doRead (?f\<lparr>file_fd := snd (Fstat (file_fd ?f))\<rparr>) 0 3) = Inr ([104, 101, 108], OK)
   \<and> result_of (Truncate ?f 3) = Inr OK
   \<and> map_option trace (file_after (Truncate ?f 3)) =
       Some [EvFstat, EvReadAt 0 4124, EvFtruncate 0, EvReadAt 0 4124,
             EvWriteAt 0 (demo_enc [104, 101, 108] 0)]
   \<and> map_option content (file_after (Truncate ?f 3)) = Some (demo_enc [104, 101, 108] 0)"
    by (simp add: file_eval result_of_def file_after_def)
  from g6 have g6': "doRead (?g\<lparr>file_fd := snd (Fstat (file_fd ?g))\<rparr>) 0 3 = Inl MakesliceLenOutOfRange"
    by simp
  from d g1 c g6' b show ?thesis
    by (intro conjI) simp_all
qed

text \<open>
  The claim as first stated has the write before the \<^verbatim>\<open>Ftruncate\<close>. The backing file
  holds the one block of \<^verbatim>\<open>hello\<close> and is truncated to 3 bytes: the \<^verbatim>\<open>Ftruncate\<close> (to 0)
  is the third call, the only write is the last one.
\<close>

theorem Truncate_ftruncate_before_write_counterexample:
  "map_option trace (file_after (Truncate (demo_file 4096 (demo_enc hello 0) no_faults) 3)) =
     Some [EvFstat, EvReadAt 0 4124, EvFtruncate 0, EvReadAt 0 4124,
           EvWriteAt 0 (demo_enc [104, 101, 108] 0)]"
  by (simp add: file_eval file_after_def)

section \<open>Claim C2: a block that fails authentication\<close>

lemma spec_DecryptBlocks_bad_block:
  assumes "i * (NONCE_LEN + pbs + AUTH_TAG_LEN) < length ct"
    and "dec (take (NONCE_LEN + pbs + AUTH_TAG_LEN) (drop (i * (NONCE_LEN + pbs + AUTH_TAG_LEN)) ct))
           (b0 + i) = None"
  shows "snd (spec_DecryptBlocks pbs dec ct b0) \<noteq> None"
  using assms
proof (induction i arbitrary: ct b0)
  case 0
  then have "ct \<noteq> []" by auto
  with 0 show ?case by (simp add: spec_DecryptBlocks.simps [of pbs dec ct b0])
next
  case (Suc i)
  let ?cbs = "NONCE_LEN + pbs + AUTH_TAG_LEN"
  from Suc.prems(1) have ne: "ct \<noteq> []" by auto
  show ?case
  proof (cases "dec (take ?cbs ct) b0")
    case None
    with ne show ?thesis by (simp add: spec_DecryptBlocks.simps [of pbs dec ct b0])
  next
    case (Some p)
    from Suc.prems(1) have a: "i * ?cbs < length (drop ?cbs ct)" by simp
    from Suc.prems(2) have b: "dec (take ?cbs (drop (i * ?cbs) (drop ?cbs ct))) ((b0 + 1) + i) = None"
      by (simp add: add.commute)
    from Suc.IH [OF a b] have "snd (spec_DecryptBlocks pbs dec (drop ?cbs ct) (b0 + 1)) \<noteq> None" .
    with ne Some show ?thesis
      by (simp add: spec_DecryptBlocks.simps [of pbs dec ct b0] split_beta)
  qed
qed

text \<open>
  C2. Let the positioned read of \<^verbatim>\<open>doRead\<close> succeed (the offset and the length of the
  covering ciphertext range fit an \<^verbatim>\<open>int64\<close>, and the call does not fail) and let \<open>ct\<close> be
  the ciphertext it delivers for the covering range. If \<^verbatim>\<open>DecryptBlocks\<close> reports an
  error on \<open>ct\<close>, or, with \<^verbatim>\<open>cryptfs\<close> as the spec describes it, if any block of \<open>ct\<close>
  fails to authenticate, then \<^verbatim>\<open>doRead\<close> returns \<^verbatim>\<open>nil\<close> and \<open>EIO\<close>, and \<^verbatim>\<open>Read\<close> at that
  offset on a file not opened write-only returns a \<^verbatim>\<open>nil\<close> result and \<open>EIO\<close>: no
  plaintext byte is returned, neither of the failing block nor of any block before or
  after it.
\<close>

theorem doRead_auth_failure_is_EIO:
  assumes rng: "CiphertextRange (cfs f) off len = (ao, al, skip)"
    and rd: "fault_now (file_fd f) = None"
    and fits: "ao < 2 ^ 63" "al < 2 ^ 63"
    and ct: "ct = take al (drop ao (content (file_fd f)))"
    and bad: "snd (DecryptBlocks (cfs f) ct (ao div CipherBS (cfs f))) \<noteq> None
              \<or> (\<exists>h enc dec i. cfs f = spec_cfs (PlainBS (cfs f)) h enc dec
                    \<and> i * CipherBS (cfs f) < length ct
                    \<and> dec (take (CipherBS (cfs f)) (drop (i * CipherBS (cfs f)) ct))
                          (ao div CipherBS (cfs f) + i) = None)"
  shows "result_of (doRead f off len) = Inr ([], EIO)
         \<and> (\<not> writeOnly f \<and> uint64 roff = off \<longrightarrow>
              result_of (Read f len roff) = Inr (None, EIO))"
proof -
  have "snd (DecryptBlocks (cfs f) ct (ao div CipherBS (cfs f))) \<noteq> None"
    using bad
  proof
    assume "snd (DecryptBlocks (cfs f) ct (ao div CipherBS (cfs f))) \<noteq> None"
    then show ?thesis .
  next
    assume "\<exists>h enc dec i. cfs f = spec_cfs (PlainBS (cfs f)) h enc dec
                    \<and> i * CipherBS (cfs f) < length ct
                    \<and> dec (take (CipherBS (cfs f)) (drop (i * CipherBS (cfs f)) ct))
                          (ao div CipherBS (cfs f) + i) = None"
    then obtain h enc dec i where s: "cfs f = spec_cfs (PlainBS (cfs f)) h enc dec"
      and i: "i * CipherBS (cfs f) < length ct"
      "dec (take (CipherBS (cfs f)) (drop (i * CipherBS (cfs f)) ct))
          (ao div CipherBS (cfs f) + i) = None"
      by blast
    have d: "DecryptBlocks (cfs f) = spec_DecryptBlocks (PlainBS (cfs f)) dec"
      by (subst s) (simp add: spec_cfs_def)
    from spec_DecryptBlocks_bad_block [of i "PlainBS (cfs f)" ct dec "ao div CipherBS (cfs f)"] i
    show ?thesis
      by (simp add: d CipherBS_def)
  qed
  with doRead_auth_failure [OF rng rd fits] ct
  have r: "doRead f off len =
      Inr (([], EIO), f\<lparr>file_fd := snd (ReadAt (file_fd f) al (int ao))\<rparr>)"
    by simp
  then have "\<not> writeOnly f \<and> uint64 roff = off \<longrightarrow> result_of (Read f len roff) = Inr (None, EIO)"
    by (simp add: Read_def result_of_def EIO_def OK_def)
  with r show ?thesis by (simp add: result_of_def)
qed

theorem doRead_auth_failure_is_EIO_witness:
  "CiphertextRange (cfs (demo_file 4 two_blocks_bad no_faults)) 2 4 = (0, 64, 2)
   \<and> fault_now (file_fd (demo_file 4 two_blocks_bad no_faults)) = None
   \<and> take 64 (drop 0 (content (file_fd (demo_file 4 two_blocks_bad no_faults)))) = two_blocks_bad
   \<and> cfs (demo_file 4 two_blocks_bad no_faults) = spec_cfs 4 0 demo_enc demo_dec
   \<and> 1 * CipherBS (cfs (demo_file 4 two_blocks_bad no_faults)) < length two_blocks_bad
   \<and> demo_dec (take 32 (drop 32 two_blocks_bad)) 1 = None
   \<and> uint64 2 = 2
   \<and> result_of (doRead (demo_file 4 two_blocks_bad no_faults) 2 4) = Inr ([], EIO)
   \<and> result_of (Read (demo_file 4 two_blocks_bad no_faults) 4 2) = Inr (None, EIO)
   \<and> result_of (doRead (demo_file 4 two_blocks_bad no_faults) 0 4) = Inr ([104, 101, 108, 108], OK)"
proof -
  let ?f = "demo_file 4 two_blocks_bad no_faults"
  have 1: "CiphertextRange (cfs ?f) 2 4 = (0, 64, 2)"
    by (simp add: file_eval2)
  have 2: "fault_now (file_fd ?f) = None"
    by (simp add: file_eval2)
  have fits: "(0::nat) < 2 ^ 63" "(64::nat) < 2 ^ 63"
    by simp_all
  have 3: "two_blocks_bad = take 64 (drop 0 (content (file_fd ?f)))"
    by (simp add: file_eval2)
  have c: "cfs ?f = spec_cfs 4 0 demo_enc demo_dec"
    by (simp add: demo_file_def)
  have pbs: "PlainBS (cfs ?f) = 4" and cbs: "CipherBS (cfs ?f) = 32"
    by (simp_all add: file_eval2)
  have len: "1 * CipherBS (cfs ?f) < length two_blocks_bad"
    by (simp add: file_eval2)
  have blk: "demo_dec (take 32 (drop 32 two_blocks_bad)) 1 = None"
    by (simp add: file_eval2)
  have 4: "snd (DecryptBlocks (cfs ?f) two_blocks_bad (0 div CipherBS (cfs ?f))) \<noteq> None
      \<or> (\<exists>h enc dec i. cfs ?f = spec_cfs (PlainBS (cfs ?f)) h enc dec
            \<and> i * CipherBS (cfs ?f) < length two_blocks_bad
            \<and> dec (take (CipherBS (cfs ?f)) (drop (i * CipherBS (cfs ?f)) two_blocks_bad))
                  (0 div CipherBS (cfs ?f) + i) = None)"
  proof (intro disjI2 exI conjI)
    show "cfs ?f = spec_cfs (PlainBS (cfs ?f)) 0 demo_enc demo_dec"
      using c pbs by simp
    show "1 * CipherBS (cfs ?f) < length two_blocks_bad"
      by (rule len)
    show "demo_dec (take (CipherBS (cfs ?f)) (drop (1 * CipherBS (cfs ?f)) two_blocks_bad))
            (0 div CipherBS (cfs ?f) + 1) = None"
      using blk cbs by simp
  qed
  have w: "\<not> writeOnly ?f"
    by (simp add: demo_file_def)
  have u: "uint64 2 = 2"
    by (simp add: uint64_def)
  have ok: "result_of (doRead ?f 0 4) = Inr ([104, 101, 108, 108], OK)"
    by (simp add: file_eval2 result_of_def)
  from doRead_auth_failure_is_EIO [OF 1 2 fits 3 4, of 2] w u 1 2 3 [symmetric] c len blk ok
  show ?thesis
    by simp
qed

section \<open>Claim C7: reads at and across the end of the file\<close>

subsection \<open>Decrypting a run of blocks of an intact file\<close>

lemma spec_DecryptBlocks_Nil [simp]: "spec_DecryptBlocks pbs dec [] b0 = ([], None)"
  by (simp add: spec_DecryptBlocks.simps)













end
